theory Spec2Isabelle
  imports Main "HOL-Library.Multiset" "HOL-Library.List_Lexorder"
begin

section \<open>Strings of the extension\<close>

text \<open>
  The extension (\<^verbatim>\<open>out/extension.js\<close>) is JavaScript: a string is a sequence of UTF-16
  code units, compared and sorted code unit by code unit. A string is modelled as the list
  of its code units (natural numbers below 65536), ordered lexicographically, which is the
  order of the default \<^verbatim>\<open>Array.prototype.sort\<close> on strings. \<open>str\<close> turns an ASCII
  literal into such a string.
\<close>

type_synonym jsstring = "nat list"

definition str :: "string \<Rightarrow> jsstring" where
  "str s = map of_char s"

text \<open>Decimal rendering of a non-negative integer, as a template literal renders it.\<close>

fun showNat :: "nat \<Rightarrow> jsstring" where
  "showNat n = (if n < 10 then [48 + n] else showNat (n div 10) @ [48 + n mod 10])"

declare showNat.simps [simp del]

text \<open>\<^verbatim>\<open>Array.prototype.join\<close> with a separator.\<close>

fun join :: "jsstring \<Rightarrow> jsstring list \<Rightarrow> jsstring" where
  "join sep [] = []"
| "join sep [x] = x"
| "join sep (x # y # ys) = x @ sep @ join sep (y # ys)"

section \<open>Case extractor\<close>

text \<open>
  The character classes of the regular expression \<^verbatim>\<open>/^\s*#\s*CASE\s*(\d+)\b/i\<close>
  (no \<^verbatim>\<open>u\<close> flag): \<^verbatim>\<open>\s\<close> is the white space and line terminator code units of
  ECMAScript, \<^verbatim>\<open>\d\<close> is \<^verbatim>\<open>[0-9]\<close>, a word character (for \<^verbatim>\<open>\b\<close>) is
  \<^verbatim>\<open>[A-Za-z0-9_]\<close>, and a letter of \<^verbatim>\<open>CASE\<close> matches itself and its ASCII lower case.
\<close>

definition isSpace :: "nat \<Rightarrow> bool" where
  "isSpace c \<longleftrightarrow>
     c = 0x09 \<or> c = 0x0A \<or> c = 0x0B \<or> c = 0x0C \<or> c = 0x0D \<or> c = 0x20 \<or> c = 0xA0 \<or>
     c = 0x1680 \<or> (0x2000 \<le> c \<and> c \<le> 0x200A) \<or> c = 0x2028 \<or> c = 0x2029 \<or>
     c = 0x202F \<or> c = 0x205F \<or> c = 0x3000 \<or> c = 0xFEFF"

definition isDigit :: "nat \<Rightarrow> bool" where
  "isDigit c \<longleftrightarrow> 48 \<le> c \<and> c \<le> 57"

definition isWordChar :: "nat \<Rightarrow> bool" where
  "isWordChar c \<longleftrightarrow> isDigit c \<or> (65 \<le> c \<and> c \<le> 90) \<or> (97 \<le> c \<and> c \<le> 122) \<or> c = 95"

definition ciLetter :: "nat \<Rightarrow> nat \<Rightarrow> bool" where
  "ciLetter upper c \<longleftrightarrow> c = upper \<or> c = upper + 32"

definition isCaseToken :: "jsstring \<Rightarrow> bool" where
  "isCaseToken t \<longleftrightarrow>
     (case t of
        [c1, c2, c3, c4] \<Rightarrow> ciLetter 67 c1 \<and> ciLetter 65 c2 \<and> ciLetter 83 c3 \<and> ciLetter 69 c4
      | _ \<Rightarrow> False)"

text \<open>
  The id of a case is the number \<^verbatim>\<open>Number(match[1])\<close>, a double. When the decimal value of
  the digits is below \<open>2^53\<close> the double is that integer, and the template literal
  \<^verbatim>\<open>${c.id}\<close> renders it with its decimal digits. From \<open>2^53\<close> on, the runtime rounds
  the value to a double (by a rule that is its own choice beyond 20 digits) and renders it
  with the shortest digits that read back as that double, in exponent notation from
  \<open>10^21\<close>: such a number is kept as \<open>Inexact\<close> of its digits, and its rendering is
  left to the JavaScript engine, a parameter \<open>js\<close> of the model: \<open>js ds\<close> is the string
  that the engine makes of the number \<^verbatim>\<open>Number(ds)\<close>, for a run of digits \<open>ds\<close> whose
  value is \<open>2^53\<close> or more.
\<close>

type_synonym engine = "jsstring \<Rightarrow> jsstring"

datatype jsnumber = SafeInteger nat | Inexact jsstring


definition decimalValue :: "jsstring \<Rightarrow> nat" where
  "decimalValue ds = foldl (\<lambda>n d. 10 * n + (d - 48)) 0 ds"

definition Number :: "jsstring \<Rightarrow> jsnumber" where
  "Number ds = (let v = decimalValue ds in if v < 2 ^ 53 then SafeInteger v else Inexact ds)"

text \<open>
  \<^verbatim>\<open>text.match(/^\s*#\s*CASE\s*(\d+)\b/i)\<close>, returning the number made of the captured
  group. The classes \<^verbatim>\<open>\s\<close>, \<^verbatim>\<open>#\<close>, the letters and \<^verbatim>\<open>\d\<close> are pairwise disjoint, so
  each greedy star stops at one place only; \<^verbatim>\<open>\d+\<close> followed by \<^verbatim>\<open>\b\<close> can only end
  where the run of digits ends, since a shorter run is followed by a digit, which is a
  word character as the digit before it.
\<close>

definition matchCaseMarker :: "jsstring \<Rightarrow> jsnumber option" where
  "matchCaseMarker text =
     (case dropWhile isSpace text of
        [] \<Rightarrow> None
      | c # afterHash \<Rightarrow>
          if c \<noteq> 35 then None
          else
            let r = dropWhile isSpace afterHash in
            if \<not> isCaseToken (take 4 r) then None
            else
              let r' = dropWhile isSpace (drop 4 r);
                  digits = takeWhile isDigit r';
                  rest = dropWhile isDigit r'
              in if digits = [] then None
                 else if rest \<noteq> [] \<and> isWordChar (hd rest) then None
                 else Some (Number digits))"

text \<open>A case of the document: \<^verbatim>\<open>{ id, startLine, endLine }\<close>.\<close>

record caseRange =
  caseId :: jsnumber
  startLine :: int
  endLine :: int

text \<open>A text document is the list of its lines; \<^verbatim>\<open>doc.lineCount\<close> is its length.\<close>

type_synonym textDocument = "jsstring list"

text \<open>
  The first loop of \<^verbatim>\<open>extractCases\<close>: \<open>i\<close> is the index of the first line of \<open>ls\<close>,
  \<open>lastLine\<close> is \<^verbatim>\<open>doc.lineCount - 1\<close>.
\<close>

fun scanLines :: "jsstring list \<Rightarrow> nat \<Rightarrow> int \<Rightarrow> caseRange list" where
  "scanLines [] i lastLine = []"
| "scanLines (text # ls) i lastLine =
     (case matchCaseMarker text of
        Some n \<Rightarrow> \<lparr>caseId = n, startLine = int i, endLine = lastLine\<rparr> # scanLines ls (Suc i) lastLine
      | None \<Rightarrow> scanLines ls (Suc i) lastLine)"

text \<open>
  The second loop: \<^verbatim>\<open>cases[i].endLine = cases[i + 1].startLine - 1\<close> for every case
  but the last.
\<close>

fun fixEndLines :: "caseRange list \<Rightarrow> caseRange list" where
  "fixEndLines (c # d # cs) = c\<lparr>endLine := startLine d - 1\<rparr> # fixEndLines (d # cs)"
| "fixEndLines cs = cs"

definition extractCases :: "textDocument \<Rightarrow> caseRange list" where
  "extractCases doc = fixEndLines (scanLines doc 0 (int (length doc) - 1))"

section \<open>Diagnostic matcher\<close>

text \<open>
  A diagnostic of the host: \<^verbatim>\<open>diag.range.start.line\<close>, \<^verbatim>\<open>diag.range.start.character\<close>,
  \<^verbatim>\<open>diag.range.end.line\<close>, \<^verbatim>\<open>diag.range.end.character\<close>, \<^verbatim>\<open>diag.message\<close> and
  \<^verbatim>\<open>diag.source\<close>. Positions of the host are non-negative integers.
\<close>

record diagnostic =
  rangeStartLine :: nat
  rangeStartCharacter :: nat
  rangeEndLine :: nat
  rangeEndCharacter :: nat
  message :: jsstring
  source :: jsstring

definition caseHasIssue :: "diagnostic list \<Rightarrow> caseRange \<Rightarrow> bool" where
  "caseHasIssue diagnostics c =
     list_ex (\<lambda>diag. let line = int (rangeStartLine diag)
                     in line \<ge> startLine c \<and> line \<le> endLine c) diagnostics"

section \<open>Elapsed time\<close>

text \<open>
  \<^verbatim>\<open>elapsedSec\<close> is the double \<^verbatim>\<open>Math.max(0, elapsedMs) / 1000\<close> and is rendered by
  \<^verbatim>\<open>toFixed(2)\<close>. A non-negative double is modelled exactly, as the dyadic fraction
  \<open>(m, e)\<close> that stands for \<open>m / 2^e\<close>.

  \<open>div1000 ms\<close> is the IEEE 754 binary64 quotient of the integer \<open>ms\<close> by 1000, for
  \<open>ms < 2^53\<close> (a difference of two \<^verbatim>\<open>Date.now()\<close> readings): \<open>e\<close> is the least
  exponent that brings \<open>ms * 2^e / 1000\<close> to \<open>2^52\<close> at least, so that \<open>m\<close> has 53
  bits, and \<open>m\<close> is that scaled quotient rounded to nearest, ties to even. \<open>scaleUp\<close>
  looks for the exponent from 0 upwards; it is 62 at most when \<open>ms\<close> is not 0.
\<close>

type_synonym dyadic = "nat \<times> nat"

definition roundHalfEven :: "nat \<Rightarrow> nat \<Rightarrow> nat" where
  "roundHalfEven a b =
     (let q = a div b; r = a mod b
      in if 2 * r < b then q else if b < 2 * r then q + 1 else if even q then q else q + 1)"

fun scaleUp :: "nat \<Rightarrow> nat \<Rightarrow> nat \<Rightarrow> nat" where
  "scaleUp 0 ms e = e"
| "scaleUp (Suc k) ms e = (if 2 ^ 52 * 1000 \<le> ms * 2 ^ e then e else scaleUp k ms (Suc e))"

definition div1000 :: "nat \<Rightarrow> dyadic" where
  "div1000 ms =
     (if ms = 0 then (0, 0)
      else let e = scaleUp 62 ms 0 in (roundHalfEven (ms * 2 ^ e) 1000, e))"

text \<open>
  \<^verbatim>\<open>Number.prototype.toFixed(2)\<close>: \<open>hundredths x\<close> is the integer \<open>n\<close> for which
  \<open>n / 100\<close> is closest to the number, the larger one of two; its digits are padded with
  zeros to three at least, and the point is put before the last two.
\<close>

definition hundredths :: "dyadic \<Rightarrow> nat" where
  "hundredths x = (case x of (m, e) \<Rightarrow> (200 * m + 2 ^ e) div 2 ^ (e + 1))"

definition toFixed2 :: "dyadic \<Rightarrow> jsstring" where
  "toFixed2 x =
     (let ds = showNat (hundredths x);
          padded = (if length ds \<le> 2 then replicate (3 - length ds) 48 @ ds else ds);
          k = length padded
      in take (k - 2) padded @ [46] @ drop (k - 2) padded)"

section \<open>Host and extension state\<close>

text \<open>
  A document is identified by \<^verbatim>\<open>uri.toString()\<close>. The host gives, for a uri, the text
  document (\<open>None\<close>: the promise of \<^verbatim>\<open>openTextDocument\<close> rejects), the current
  diagnostics, and \<^verbatim>\<open>path.basename(uri.fsPath)\<close>; \<open>dateNow h k\<close> is what the call
  number \<open>k\<close> of \<^verbatim>\<open>Date.now()\<close> returns, in milliseconds.
\<close>

type_synonym uri = jsstring

record host =
  openTextDocument :: "uri \<Rightarrow> textDocument option"
  getDiagnostics :: "uri \<Rightarrow> diagnostic list"
  baseName :: "uri \<Rightarrow> jsstring"
  dateNow :: "nat \<Rightarrow> int"

text \<open>A number in a template literal.\<close>

definition numberToString :: "engine \<Rightarrow> jsnumber \<Rightarrow> jsstring" where
  "numberToString js x = (case x of SafeInteger n \<Rightarrow> showNat n | Inexact ds \<Rightarrow> js ds)"

text \<open>
  What the extension does to its two sinks, in order: the output channel
  \<^verbatim>\<open>XSS LSP Issues\<close> and the pseudoterminals \<^verbatim>\<open>XSS LSP Cases\<close>, numbered as they are
  created; the write emitter of a terminal carries the terminal's number.
\<close>

datatype event =
    ChannelShow
  | ChannelAppendLine jsstring
  | TerminalCreate nat
  | TerminalShow nat
  | WriterFire nat jsstring
  | WriterDispose nat

text \<open>
  The module variables \<^verbatim>\<open>outputChannel\<close> (is it defined), \<^verbatim>\<open>caseTerminal\<close>,
  \<^verbatim>\<open>caseTerminalWriter\<close>, \<^verbatim>\<open>lastReports\<close> and \<^verbatim>\<open>lastChangeAt\<close>, and the part of the
  host that the extension changes: the number of terminals created, the events on the
  sinks, and the number of calls of \<^verbatim>\<open>Date.now()\<close> made.
\<close>

record extState =
  outputChannel :: bool
  caseTerminal :: "nat option"
  caseTerminalWriter :: "nat option"
  lastReports :: "uri \<rightharpoonup> jsstring"
  lastChangeAt :: "uri \<rightharpoonup> int"
  terminalsCreated :: nat
  events :: "event list"
  clockReads :: nat

definition emit :: "event \<Rightarrow> extState \<Rightarrow> extState" where
  "emit e s = s\<lparr>events := events s @ [e]\<rparr>"

text \<open>
  The handlers of \<^verbatim>\<open>onDidChangeTextDocument\<close>, \<^verbatim>\<open>onDidSaveTextDocument\<close> and
  \<^verbatim>\<open>onDidOpenTextDocument\<close> have the same body.
\<close>

definition recordChange :: "host \<Rightarrow> jsstring \<Rightarrow> uri \<Rightarrow> extState \<Rightarrow> extState" where
  "recordChange h languageId u s =
     (if languageId = str ''python''
      then s\<lparr>lastChangeAt := (lastChangeAt s)(u \<mapsto> dateNow h (clockReads s)),
             clockReads := Suc (clockReads s)\<rparr>
      else s)"

text \<open>The handler of \<^verbatim>\<open>onDidCloseTerminal\<close>.\<close>

definition onDidCloseTerminal :: "nat \<Rightarrow> extState \<Rightarrow> extState" where
  "onDidCloseTerminal terminal s =
     (if caseTerminal s = Some terminal
      then (case caseTerminalWriter s of
              Some w \<Rightarrow> (emit (WriterDispose w) s)\<lparr>caseTerminal := None, caseTerminalWriter := None\<rparr>
            | None \<Rightarrow> s\<lparr>caseTerminal := None\<rparr>)
      else s)"

definition getCaseTerminal :: "extState \<Rightarrow> (nat \<times> nat) \<times> extState" where
  "getCaseTerminal s =
     (case (caseTerminal s, caseTerminalWriter s) of
        (Some terminal, Some writer) \<Rightarrow> ((terminal, writer), s)
      | _ \<Rightarrow>
          let n = terminalsCreated s
          in ((n, n), (emit (TerminalCreate n) s)
                        \<lparr>caseTerminal := Some n, caseTerminalWriter := Some n,
                         terminalsCreated := Suc n\<rparr>))"

section \<open>Report fingerprints and lines\<close>

text \<open>
  The report key of case mode:
  \<^verbatim>\<open>cases.map((c) => `${c.id}:${caseHasIssue(diagnostics, c) ? 1 : 0}`).join("|")\<close>.
\<close>

definition reportKeyEntry :: "engine \<Rightarrow> diagnostic list \<Rightarrow> caseRange \<Rightarrow> jsstring" where
  "reportKeyEntry js diagnostics c =
     numberToString js (caseId c) @ str '':'' @ showNat (if caseHasIssue diagnostics c then 1 else 0)"

definition reportKey :: "engine \<Rightarrow> diagnostic list \<Rightarrow> caseRange list \<Rightarrow> jsstring" where
  "reportKey js diagnostics cases = join (str ''|'') (map (reportKeyEntry js diagnostics) cases)"

text \<open>
  The fingerprint of flat mode: every diagnostic as
  \<^verbatim>\<open>`${start.line}:${start.character}:${end.line}:${end.character}:${diag.message}`\<close>, the
  strings sorted (a fresh array: the diagnostics keep their order) and joined.
\<close>

definition fingerprintEntry :: "diagnostic \<Rightarrow> jsstring" where
  "fingerprintEntry diag =
     showNat (rangeStartLine diag) @ str '':'' @ showNat (rangeStartCharacter diag) @ str '':'' @
     showNat (rangeEndLine diag) @ str '':'' @ showNat (rangeEndCharacter diag) @ str '':'' @
     message diag"

definition fingerprint :: "diagnostic list \<Rightarrow> jsstring" where
  "fingerprint diagnostics = join (str ''|'') (sort (map fingerprintEntry diagnostics))"

text \<open>
  The status of a case, \<^verbatim>\<open>ok ? "..." : "..."\<close> with \<^verbatim>\<open>ok = caseHasIssue(diagnostics, c)\<close>:
  the first string is U+C131 U+ACF5 (Korean for success), the second is U+C2E4 U+D328
  (Korean for failure).
\<close>

definition statusSuccess :: jsstring where
  "statusSuccess = [0xC131, 0xACF5]"

definition statusFailure :: jsstring where
  "statusFailure = [0xC2E4, 0xD328]"

definition status :: "bool \<Rightarrow> jsstring" where
  "status ok = (if ok then statusSuccess else statusFailure)"

text \<open>
  The line of a case: \<^verbatim>\<open>### \<close>, the id, U+BC88, a space, U+CF00 U+C774 U+C2A4 (Korean for
  case number id), \<^verbatim>\<open> -> \<close>, the status, a space, \<^verbatim>\<open>elapsedSec.toFixed(2)\<close> and \<^verbatim>\<open>s\<close>.
\<close>

definition caseLine :: "engine \<Rightarrow> caseRange \<Rightarrow> jsstring \<Rightarrow> dyadic \<Rightarrow> jsstring" where
  "caseLine js c st elapsedSec =
     str ''### '' @ numberToString js (caseId c) @ [0xBC88, 0x20, 0xCF00, 0xC774, 0xC2A4] @ str '' -> '' @
     st @ str '' '' @ toFixed2 elapsedSec @ str ''s''"

text \<open>
  The locator line of flat mode:
  \<^verbatim>\<open>`[XSS] ${path.basename(uri.fsPath)}:${line + 1}:${col + 1} ${diag.message}`\<close>.
\<close>

definition flatLine :: "jsstring \<Rightarrow> diagnostic \<Rightarrow> jsstring" where
  "flatLine name diag =
     str ''[XSS] '' @ name @ str '':'' @ showNat (rangeStartLine diag + 1) @ str '':'' @
     showNat (rangeStartCharacter diag + 1) @ str '' '' @ message diag"

section \<open>Dual-sink reporter\<close>

text \<open>
  \<^verbatim>\<open>Date.now() - (lastChangeAt.get(uriKey) ?? Date.now())\<close>: the clock is read once, and
  once more when no change of the document was recorded.
\<close>

definition readElapsedMs :: "host \<Rightarrow> uri \<Rightarrow> extState \<Rightarrow> int \<times> extState" where
  "readElapsedMs h uriKey s =
     (let now = dateNow h (clockReads s)
      in case lastChangeAt s uriKey of
           Some t \<Rightarrow> (now - t, s\<lparr>clockReads := clockReads s + 1\<rparr>)
         | None \<Rightarrow> (now - dateNow h (clockReads s + 1), s\<lparr>clockReads := clockReads s + 2\<rparr>))"

text \<open>The loop over the cases: one line to the output channel and to the terminal.\<close>

fun renderCases ::
  "engine \<Rightarrow> nat \<Rightarrow> diagnostic list \<Rightarrow> dyadic \<Rightarrow> caseRange list \<Rightarrow> extState \<Rightarrow> extState" where
  "renderCases js writer diagnostics elapsedSec [] s = s"
| "renderCases js writer diagnostics elapsedSec (c # cs) s =
     (let ok = caseHasIssue diagnostics c;
          line = caseLine js c (status ok) elapsedSec
      in renderCases js writer diagnostics elapsedSec cs
           (emit (WriterFire writer (line @ [13, 10])) (emit (ChannelAppendLine line) s)))"

text \<open>
  The promise of an \<^verbatim>\<open>async\<close> function is fulfilled, or rejected when an exception
  left the function; what the function did before stays done.
\<close>

datatype completion = Fulfilled | Rejected

text \<open>
  The loop over the diagnostics of flat mode. \<^verbatim>\<open>doc.lineAt(line)\<close> throws when the
  line is not a line of the document, before anything is written for that diagnostic.
\<close>

fun renderFlat :: "jsstring \<Rightarrow> textDocument \<Rightarrow> diagnostic list \<Rightarrow> extState \<Rightarrow> completion \<times> extState" where
  "renderFlat name doc [] s = (Fulfilled, s)"
| "renderFlat name doc (diag # ds) s =
     (let line = rangeStartLine diag
      in if \<not> line < length doc then (Rejected, s)
         else
           let lineText = doc ! line
           in renderFlat name doc ds
                (emit (ChannelAppendLine lineText) (emit (ChannelAppendLine (flatLine name diag)) s)))"

text \<open>
  \<^verbatim>\<open>vscode.languages.getDiagnostics(uri).filter((diag) => diag.source === "xss-lsp")\<close>.
\<close>

definition filteredDiagnostics :: "host \<Rightarrow> uri \<Rightarrow> diagnostic list" where
  "filteredDiagnostics h uri = filter (\<lambda>diag. source diag = str ''xss-lsp'') (getDiagnostics h uri)"

text \<open>
  The body of the loop over \<^verbatim>\<open>uris\<close>; \<open>shown\<close> and \<open>terminalShown\<close> are the two local
  flags of the pass.
\<close>

definition reportUri ::
  "engine \<Rightarrow> host \<Rightarrow> uri \<Rightarrow> bool \<times> bool \<times> extState \<Rightarrow> completion \<times> bool \<times> bool \<times> extState" where
  "reportUri js h uri v =
     (case v of (shown, terminalShown, s) \<Rightarrow>
        (case openTextDocument h uri of
           None \<Rightarrow> (Rejected, shown, terminalShown, s)
         | Some doc \<Rightarrow>
             let diagnostics = filteredDiagnostics h uri;
                 cases = extractCases doc
             in if length cases > 0 then
                  (case readElapsedMs h uri s of (elapsedMs, s1) \<Rightarrow>
                     let elapsedSec = div1000 (nat (max 0 elapsedMs));
                         key = reportKey js diagnostics cases
                     in if lastReports s1 uri = Some key then (Fulfilled, shown, terminalShown, s1)
                        else
                          let s2 = s1\<lparr>lastReports := (lastReports s1)(uri \<mapsto> key)\<rparr>;
                              s3 = (if \<not> shown then emit ChannelShow s2 else s2)
                          in (case getCaseTerminal s3 of ((terminal, writer), s4) \<Rightarrow>
                                let s5 = (if \<not> terminalShown then emit (TerminalShow terminal) s4 else s4)
                                in (Fulfilled, True, True,
                                    renderCases js writer diagnostics elapsedSec cases s5)))
                else if length diagnostics = 0 then (Fulfilled, shown, terminalShown, s)
                else
                  let fp = fingerprint diagnostics
                  in if lastReports s uri = Some fp then (Fulfilled, shown, terminalShown, s)
                     else
                       let s2 = s\<lparr>lastReports := (lastReports s)(uri \<mapsto> fp)\<rparr>;
                           s3 = (if \<not> shown then emit ChannelShow s2 else s2)
                       in (case renderFlat (baseName h uri) doc diagnostics s3 of
                             (r, s4) \<Rightarrow> (r, True, terminalShown, s4))))"

text \<open>The loop over \<^verbatim>\<open>uris\<close>: an exception ends it.\<close>

fun reportLoop ::
  "engine \<Rightarrow> host \<Rightarrow> uri list \<Rightarrow> bool \<times> bool \<times> extState \<Rightarrow> completion \<times> bool \<times> bool \<times> extState" where
  "reportLoop js h [] v = (Fulfilled, v)"
| "reportLoop js h (uri # uris) v =
     (case reportUri js h uri v of
        (Rejected, v') \<Rightarrow> (Rejected, v')
      | (Fulfilled, v') \<Rightarrow> reportLoop js h uris v')"

text \<open>
  \<^verbatim>\<open>reportXssDiagnostics(uris)\<close>, run from the state \<open>s\<close> with no other handler of the
  extension running in between.
\<close>

definition reportXssDiagnostics :: "engine \<Rightarrow> host \<Rightarrow> uri list \<Rightarrow> extState \<Rightarrow> completion \<times> extState" where
  "reportXssDiagnostics js h uris s =
     (if \<not> outputChannel s then (Fulfilled, s)
      else case reportLoop js h uris (False, False, s) of (r, shown, terminalShown, s') \<Rightarrow> (r, s'))"

section \<open>What the sinks have received\<close>

text \<open>
  The lines appended to the output channel and the chunks fired into the terminals, read
  off a list of events, in order.
\<close>

fun channelLines :: "event list \<Rightarrow> jsstring list" where
  "channelLines [] = []"
| "channelLines (ChannelAppendLine l # es) = l # channelLines es"
| "channelLines (e # es) = channelLines es"

fun terminalWrites :: "event list \<Rightarrow> jsstring list" where
  "terminalWrites [] = []"
| "terminalWrites (WriterFire w x # es) = x # terminalWrites es"
| "terminalWrites (e # es) = terminalWrites es"

text \<open>The events of the loop over the cases, for a given line of each case.\<close>

definition caseEvents :: "nat \<Rightarrow> (caseRange \<Rightarrow> jsstring) \<Rightarrow> caseRange list \<Rightarrow> event list" where
  "caseEvents writer lineOf cases =
     concat (map (\<lambda>c. [ChannelAppendLine (lineOf c), WriterFire writer (lineOf c @ [13, 10])]) cases)"

text \<open>
  The events of a rendering pass in case mode before the first case line: the output channel
  is shown unless it was shown in this batch, a terminal is created unless there is one,
  and the terminal is shown unless it was shown in this batch.
\<close>

definition casePrelude :: "bool \<Rightarrow> bool \<Rightarrow> extState \<Rightarrow> event list" where
  "casePrelude shown terminalShown s =
     (if shown then [] else [ChannelShow]) @
     (if caseTerminal s \<noteq> None \<and> caseTerminalWriter s \<noteq> None then []
      else [TerminalCreate (terminalsCreated s)]) @
     (if terminalShown then [] else [TerminalShow (fst (fst (getCaseTerminal s)))])"

text \<open>
  The events of the loop over the diagnostics of flat mode: the two lines of every
  diagnostic before the first one whose line is not a line of the document.
\<close>

definition flatEvents :: "jsstring \<Rightarrow> textDocument \<Rightarrow> diagnostic list \<Rightarrow> event list" where
  "flatEvents name doc diagnostics =
     concat (map (\<lambda>diag. [ChannelAppendLine (flatLine name diag),
                           ChannelAppendLine (doc ! rangeStartLine diag)])
       (takeWhile (\<lambda>diag. rangeStartLine diag < length doc) diagnostics))"

section \<open>Example documents\<close>

text \<open>
  A line that is no marker, the marker line of a case, and a document of 30 lines with
  markers at the lines 2, 10 and 25 (counted from 0).
\<close>

definition plainLine :: jsstring where
  "plainLine = str ''pass''"

definition markerLine :: "nat \<Rightarrow> jsstring" where
  "markerLine n = str ''# CASE '' @ showNat n"

definition thirtyLineDoc :: textDocument where
  "thirtyLineDoc =
     [plainLine, plainLine, markerLine 1, plainLine, plainLine, plainLine, plainLine, plainLine,
      plainLine, plainLine, markerLine 2, plainLine, plainLine, plainLine, plainLine, plainLine,
      plainLine, plainLine, plainLine, plainLine, plainLine, plainLine, plainLine, plainLine,
      plainLine, markerLine 3, plainLine, plainLine, plainLine, plainLine]"

text \<open>
  Diagnostics of the analyzer: at position 0 with a given message, and on a given line.
  The three diagnostics \<open>collideA\<close>, \<open>collideA'\<close> and \<open>collideB\<close> carry the separator
  of the fingerprint in their messages.
\<close>

definition zeroDiag :: "jsstring \<Rightarrow> diagnostic" where
  "zeroDiag msg =
     \<lparr>rangeStartLine = 0, rangeStartCharacter = 0, rangeEndLine = 0, rangeEndCharacter = 0,
      message = msg, source = str ''xss-lsp''\<rparr>"

definition collideA :: diagnostic where
  "collideA = zeroDiag (str ''a|0:0:0:0:b'')"

definition collideA' :: diagnostic where
  "collideA' = zeroDiag (str ''b|0:0:0:0:a'')"

definition collideB :: diagnostic where
  "collideB = zeroDiag (str ''a|0:0:0:0:b|0:0:0:0:a'')"

definition diagAt :: "nat \<Rightarrow> jsstring \<Rightarrow> diagnostic" where
  "diagAt line msg =
     \<lparr>rangeStartLine = line, rangeStartCharacter = 0, rangeEndLine = line, rangeEndCharacter = 5,
      message = msg, source = str ''xss-lsp''\<rparr>"

text \<open>
  A document without markers, a host that serves one document and its diagnostics for
  every uri and whose clock advances by 1500 ms from one reading to the next, and the
  state that \<^verbatim>\<open>activate\<close> leaves: the output channel created, nothing else. The engine
  of the examples renders an inexact number by its digits; it plays no part, since the ids
  of the examples are safe integers.
\<close>

definition sampleEngine :: engine where
  "sampleEngine ds = ds"

definition flatDoc :: textDocument where
  "flatDoc = [str ''x = input()'', str ''print(x)'']"

definition hostOf :: "textDocument \<Rightarrow> diagnostic list \<Rightarrow> host" where
  "hostOf doc ds =
     \<lparr>openTextDocument = (\<lambda>u. Some doc), getDiagnostics = (\<lambda>u. ds),
      baseName = (\<lambda>u. str ''app.py''), dateNow = (\<lambda>k. 1500 * int k)\<rparr>"

definition initialState :: extState where
  "initialState =
     \<lparr>outputChannel = True, caseTerminal = None, caseTerminalWriter = None,
      lastReports = Map.empty, lastChangeAt = Map.empty, terminalsCreated = 0, events = [],
      clockReads = 0\<rparr>"

definition appUri :: uri where
  "appUri = str ''file:///app.py''"

text \<open>
  Documents with two cases: of four lines, and of two marker lines in both orders. A second
  uri, and a host that cannot open it.
\<close>

definition caseDoc :: textDocument where
  "caseDoc = [markerLine 1, plainLine, markerLine 2, plainLine]"



definition brokenUri :: uri where
  "brokenUri = str ''file:///gone.py''"

definition failingHost :: host where
  "failingHost =
     \<lparr>openTextDocument = (\<lambda>u. if u = brokenUri then None else Some flatDoc),
      getDiagnostics = (\<lambda>u. [diagAt 0 (str ''tainted'')]),
      baseName = (\<lambda>u. str ''app.py''), dateNow = (\<lambda>k. 1500 * int k)\<rparr>"

text \<open>A host whose clock reads 3000 and then 1000: it has gone back.\<close>

definition backwardHost :: host where
  "backwardHost =
     \<lparr>openTextDocument = (\<lambda>u. Some caseDoc), getDiagnostics = (\<lambda>u. []),
      baseName = (\<lambda>u. str ''app.py''), dateNow = (\<lambda>k. if k = 0 then 3000 else 1000)\<rparr>"

section \<open>Properties of the fingerprints\<close>

lemma showNat_small: "n < 10 \<Longrightarrow> showNat n = [48 + n]"
  by (simp add: showNat.simps [of n])

lemma showNat_digits: "c \<in> set (showNat n) \<Longrightarrow> isDigit c"
proof (induction n rule: showNat.induct)
  case (1 n)
  show ?case
  proof (cases "n < 10")
    case True
    with "1.prems" show ?thesis by (simp add: showNat.simps [of n] isDigit_def)
  next
    case False
    have "n mod 10 < 10" by simp
    then have "isDigit (48 + n mod 10)" unfolding isDigit_def by linarith
    with False "1.prems" "1.IH" show ?thesis by (auto simp: showNat.simps [of n])
  qed
qed

lemma showNat_not_Nil: "showNat n \<noteq> []"
  by (simp add: showNat.simps [of n])

lemma showNat_inj: "showNat a = showNat b \<Longrightarrow> a = b"
proof (induction a arbitrary: b rule: showNat.induct)
  case (1 a)
  show ?case
  proof (cases "a < 10")
    case a: True
    show ?thesis
    proof (cases "b < 10")
      case True
      with a "1.prems" show ?thesis by (simp add: showNat.simps [of a] showNat.simps [of b])
    next
      case False
      with a "1.prems" have "[48 + a] = showNat (b div 10) @ [48 + b mod 10]"
        by (simp add: showNat.simps [of a] showNat.simps [of b])
      then show ?thesis using showNat_not_Nil [of "b div 10"] by simp
    qed
  next
    case a: False
    show ?thesis
    proof (cases "b < 10")
      case True
      with a "1.prems" have "showNat (a div 10) @ [48 + a mod 10] = [48 + b]"
        by (simp add: showNat.simps [of a] showNat.simps [of b])
      then show ?thesis using showNat_not_Nil [of "a div 10"] by simp
    next
      case False
      with a "1.prems" have "showNat (a div 10) = showNat (b div 10)" "a mod 10 = b mod 10"
        by (simp_all add: showNat.simps [of a] showNat.simps [of b])
      with "1.IH" [OF a] have "a div 10 = b div 10" "a mod 10 = b mod 10" by simp_all
      then show ?thesis by (metis div_mult_mod_eq)
    qed
  qed
qed

text \<open>A run of digits before a colon is determined by the whole string.\<close>

lemma digits_colon_inj:
  assumes "\<forall>c\<in>set xs. isDigit c" "\<forall>c\<in>set ys. isDigit c" "xs @ 58 # r = ys @ 58 # r'"
  shows "xs = ys \<and> r = r'"
proof -
  have nd: "\<not> isDigit 58" by (simp add: isDigit_def)
  have "takeWhile isDigit (xs @ 58 # r) = xs" "takeWhile isDigit (ys @ 58 # r') = ys"
    using assms(1,2) nd by (simp_all add: takeWhile_append2)
  with assms(3) have "xs = ys" by simp
  with assms(3) show ?thesis by simp
qed

lemma showNat_colon_inj: "showNat a @ 58 # r = showNat b @ 58 # r' \<Longrightarrow> a = b \<and> r = r'"
  using digits_colon_inj [of "showNat a" "showNat b" r r'] showNat_digits showNat_inj by blast

lemma str_colon: "str '':'' = [58]"
  by (simp add: str_def)

lemma str_bar: "str ''|'' = [124]"
  by (simp add: str_def)

lemma takeWhile_until: "a \<notin> set x \<Longrightarrow> takeWhile (\<lambda>c. c \<noteq> a) (x @ a # r) = x"
  by (induction x) auto

lemma join_Cons: "join sep (x # xs) = x @ (if xs = [] then [] else sep @ join sep xs)"
  by (cases xs) simp_all

lemma join_bar_inj:
  assumes "\<forall>x\<in>set xs. x \<noteq> [] \<and> 124 \<notin> set x" "\<forall>y\<in>set ys. y \<noteq> [] \<and> 124 \<notin> set y"
    and "join [124] xs = join [124] ys"
  shows "xs = ys"
  using assms
proof (induction xs arbitrary: ys)
  case Nil
  then show ?case by (cases ys) (auto simp: join_Cons)
next
  case (Cons x xs)
  show ?case
  proof (cases ys)
    case Nil
    with Cons.prems show ?thesis by (auto simp: join_Cons)
  next
    case (Cons y ys')
    define tx where "tx = (if xs = [] then [] else 124 # join [124] xs)"
    define ty where "ty = (if ys' = [] then [] else 124 # join [124] ys')"
    have "join [124] (x # xs) = x @ tx" "join [124] (y # ys') = y @ ty"
      by (simp_all add: join_Cons tx_def ty_def)
    with Cons.prems(3) have eq: "x @ tx = y @ ty"
      unfolding Cons by simp
    have nx: "124 \<notin> set x" and ny: "124 \<notin> set y"
      using Cons.prems(1,2) Cons by auto
    have hx: "tx = [] \<or> hd tx = 124" and hy: "ty = [] \<or> hd ty = 124"
      by (simp_all add: tx_def ty_def)
    have "takeWhile (\<lambda>c. c \<noteq> 124) (x @ tx) = x"
      using nx hx by (cases tx) (auto simp: takeWhile_until)
    moreover have "takeWhile (\<lambda>c. c \<noteq> 124) (y @ ty) = y"
      using ny hy by (cases ty) (auto simp: takeWhile_until)
    ultimately have xy: "x = y" using eq by simp
    with eq have t: "tx = ty" by simp
    have "xs = ys'"
    proof (cases "xs = []")
      case True
      with t show ?thesis by (auto simp: tx_def ty_def split: if_splits)
    next
      case False
      with t have "ys' \<noteq> []" "join [124] xs = join [124] ys'"
        by (auto simp: tx_def ty_def split: if_splits)
      then show ?thesis using Cons.IH [of ys'] Cons.prems(1,2) Cons by simp
    qed
    with xy Cons show ?thesis by simp
  qed
qed



lemma numberToString_SafeInteger: "numberToString js (SafeInteger n) = showNat n"
  by (simp add: numberToString_def)






lemma fingerprintEntry_unfold:
  "fingerprintEntry d =
     showNat (rangeStartLine d) @ 58 # showNat (rangeStartCharacter d) @ 58 #
     showNat (rangeEndLine d) @ 58 # showNat (rangeEndCharacter d) @ 58 # message d"
  by (simp add: fingerprintEntry_def str_colon)

lemma fingerprintEntry_inj:
  "fingerprintEntry d = fingerprintEntry d' \<longleftrightarrow>
     rangeStartLine d = rangeStartLine d' \<and> rangeStartCharacter d = rangeStartCharacter d' \<and>
     rangeEndLine d = rangeEndLine d' \<and> rangeEndCharacter d = rangeEndCharacter d' \<and>
     message d = message d'"
proof
  assume "fingerprintEntry d = fingerprintEntry d'"
  then have e1: "showNat (rangeStartLine d) @ 58 # showNat (rangeStartCharacter d) @ 58 #
       showNat (rangeEndLine d) @ 58 # showNat (rangeEndCharacter d) @ 58 # message d =
     showNat (rangeStartLine d') @ 58 # showNat (rangeStartCharacter d') @ 58 #
       showNat (rangeEndLine d') @ 58 # showNat (rangeEndCharacter d') @ 58 # message d'"
    by (simp only: fingerprintEntry_unfold)
  note s1 = showNat_colon_inj [OF e1]
  note s2 = showNat_colon_inj [OF conjunct2 [OF s1]]
  note s3 = showNat_colon_inj [OF conjunct2 [OF s2]]
  note s4 = showNat_colon_inj [OF conjunct2 [OF s3]]
  from s1 s2 s3 s4 show "rangeStartLine d = rangeStartLine d' \<and> rangeStartCharacter d = rangeStartCharacter d' \<and>
     rangeEndLine d = rangeEndLine d' \<and> rangeEndCharacter d = rangeEndCharacter d' \<and>
     message d = message d'" by simp
next
  assume "rangeStartLine d = rangeStartLine d' \<and> rangeStartCharacter d = rangeStartCharacter d' \<and>
     rangeEndLine d = rangeEndLine d' \<and> rangeEndCharacter d = rangeEndCharacter d' \<and>
     message d = message d'"
  then show "fingerprintEntry d = fingerprintEntry d'"
    by (simp only: fingerprintEntry_unfold)
qed

lemma fingerprintEntry_no_bar:
  "124 \<notin> set (message d) \<Longrightarrow> fingerprintEntry d \<noteq> [] \<and> 124 \<notin> set (fingerprintEntry d)"
proof -
  have "\<not> isDigit 124" by (simp add: isDigit_def)
  then have "124 \<notin> set (showNat n)" for n using showNat_digits by blast
  then show "124 \<notin> set (message d) \<Longrightarrow> ?thesis"
    by (simp add: fingerprintEntry_unfold showNat_not_Nil)
qed

lemma fingerprint_mset:
  "mset (map fingerprintEntry ds) = mset (map fingerprintEntry ds') \<Longrightarrow> fingerprint ds = fingerprint ds'"
proof -
  assume "mset (map fingerprintEntry ds) = mset (map fingerprintEntry ds')"
  then have "mset (sort (map fingerprintEntry ds')) = mset (map fingerprintEntry ds)"
    by simp
  then have "sort (map fingerprintEntry ds) = sort (map fingerprintEntry ds')"
    by (rule properties_for_sort) simp
  then show ?thesis by (simp add: fingerprint_def)
qed

lemma fingerprint_inj:
  assumes "\<forall>d\<in>set ds. 124 \<notin> set (message d)" "\<forall>d\<in>set ds'. 124 \<notin> set (message d)"
    and "fingerprint ds = fingerprint ds'"
  shows "mset (map fingerprintEntry ds) = mset (map fingerprintEntry ds')"
proof -
  have "sort (map fingerprintEntry ds) = sort (map fingerprintEntry ds')"
  proof (rule join_bar_inj)
    show "\<forall>x\<in>set (sort (map fingerprintEntry ds)). x \<noteq> [] \<and> 124 \<notin> set x"
      using assms(1) by (auto simp: fingerprintEntry_no_bar)
    show "\<forall>x\<in>set (sort (map fingerprintEntry ds')). x \<noteq> [] \<and> 124 \<notin> set x"
      using assms(2) by (auto simp: fingerprintEntry_no_bar)
    show "join [124] (sort (map fingerprintEntry ds)) = join [124] (sort (map fingerprintEntry ds'))"
      using assms(3) by (simp add: fingerprint_def str_bar)
  qed
  then have "mset (sort (map fingerprintEntry ds)) = mset (sort (map fingerprintEntry ds'))"
    by simp
  then show ?thesis by (simp only: mset_sort)
qed

section \<open>Properties of the case extractor\<close>

lemma isDigit_isWordChar: "isDigit c \<Longrightarrow> isWordChar c"
  by (simp add: isWordChar_def)

lemma isDigit_not_isSpace: "isDigit c \<Longrightarrow> \<not> isSpace c"
  by (auto simp: isDigit_def isSpace_def)

lemma ciLetter_not_isSpace: "ciLetter u c \<Longrightarrow> 65 \<le> u \<Longrightarrow> u \<le> 90 \<Longrightarrow> \<not> isSpace c"
  by (auto simp: ciLetter_def isSpace_def)

lemma isCaseToken_length: "isCaseToken t \<Longrightarrow> length t = 4"
  by (auto simp: isCaseToken_def split: list.splits)

lemma isCaseToken_hd: "isCaseToken t \<Longrightarrow> \<exists>c cs. t = c # cs \<and> \<not> isSpace c"
  by (auto simp: isCaseToken_def split: list.splits dest: ciLetter_not_isSpace)

lemma hash_not_isSpace: "\<not> isSpace 35"
  by (simp add: isSpace_def)

lemma matchCaseMarker_complete:
  assumes ws1: "\<forall>c\<in>set ws1. isSpace c" and ws2: "\<forall>c\<in>set ws2. isSpace c"
    and tok: "isCaseToken tok" and ws3: "\<forall>c\<in>set ws3. isSpace c"
    and ds: "ds \<noteq> []" "\<forall>c\<in>set ds. isDigit c"
    and rest: "rest = [] \<or> \<not> isWordChar (hd rest)"
  shows "matchCaseMarker (ws1 @ [35] @ ws2 @ tok @ ws3 @ ds @ rest) = Some (Number ds)"
proof -
  have 1: "dropWhile isSpace (ws1 @ [35] @ ws2 @ tok @ ws3 @ ds @ rest) = 35 # (ws2 @ tok @ ws3 @ ds @ rest)"
    using ws1 by (simp add: dropWhile_append2 hash_not_isSpace)
  obtain t ts where t: "tok = t # ts" "\<not> isSpace t"
    using isCaseToken_hd [OF tok] by blast
  have 2: "dropWhile isSpace (ws2 @ tok @ ws3 @ ds @ rest) = tok @ ws3 @ ds @ rest"
    using ws2 t by (simp add: dropWhile_append2)
  have 3: "take 4 (tok @ ws3 @ ds @ rest) = tok" "drop 4 (tok @ ws3 @ ds @ rest) = ws3 @ ds @ rest"
    using isCaseToken_length [OF tok] by simp_all
  obtain d dt where d: "ds = d # dt" using ds(1) by (cases ds) auto
  with ds(2) have "\<not> isSpace d" by (simp add: isDigit_not_isSpace)
  then have 4: "dropWhile isSpace (ws3 @ ds @ rest) = ds @ rest"
    using ws3 d by (simp add: dropWhile_append2)
  have nd: "rest = [] \<or> \<not> isDigit (hd rest)"
    using rest isDigit_isWordChar by blast
  have 5: "takeWhile isDigit (ds @ rest) = ds"
    using ds(2) nd by (cases rest) (simp_all add: takeWhile_append2)
  have 6: "dropWhile isDigit (ds @ rest) = rest"
    using ds(2) nd by (cases rest) (simp_all add: dropWhile_append2)
  show ?thesis
    unfolding matchCaseMarker_def 1
    by (simp add: 2 3 4 5 6 Let_def tok ds(1) rest del: take_append drop_append)
qed

lemma matchCaseMarker_sound:
  assumes "matchCaseMarker text = Some n"
  shows "\<exists>ws1 ws2 tok ws3 ds rest.
           text = ws1 @ [35] @ ws2 @ tok @ ws3 @ ds @ rest \<and>
           (\<forall>c\<in>set ws1. isSpace c) \<and> (\<forall>c\<in>set ws2. isSpace c) \<and> isCaseToken tok \<and>
           (\<forall>c\<in>set ws3. isSpace c) \<and> ds \<noteq> [] \<and> (\<forall>c\<in>set ds. isDigit c) \<and>
           (rest = [] \<or> \<not> isWordChar (hd rest)) \<and> n = Number ds"
proof -
  define ws1 where "ws1 = takeWhile isSpace text"
  obtain c afterHash where a: "dropWhile isSpace text = c # afterHash"
    using assms by (auto simp: matchCaseMarker_def split: list.splits)
  have c: "c = 35" using assms a by (auto simp: matchCaseMarker_def split: if_splits)
  define ws2 where "ws2 = takeWhile isSpace afterHash"
  define r where "r = dropWhile isSpace afterHash"
  define ws3 where "ws3 = takeWhile isSpace (drop 4 r)"
  define r' where "r' = dropWhile isSpace (drop 4 r)"
  have tok: "isCaseToken (take 4 r)"
    using assms a c by (auto simp: matchCaseMarker_def r_def Let_def split: if_splits)
  have ds: "takeWhile isDigit r' \<noteq> []"
    and rest: "dropWhile isDigit r' = [] \<or> \<not> isWordChar (hd (dropWhile isDigit r'))"
    and n: "n = Number (takeWhile isDigit r')"
    using assms a c tok by (auto simp: matchCaseMarker_def r_def r'_def Let_def split: if_splits)
  have "text = ws1 @ c # afterHash"
    unfolding ws1_def a [symmetric] by simp
  also have "afterHash = ws2 @ r" by (simp add: ws2_def r_def)
  also have "r = take 4 r @ drop 4 r" by simp
  also have "drop 4 r = ws3 @ r'" by (simp add: ws3_def r'_def)
  also have "r' = takeWhile isDigit r' @ dropWhile isDigit r'" by simp
  finally have "text = ws1 @ [35] @ ws2 @ take 4 r @ ws3 @ takeWhile isDigit r' @ dropWhile isDigit r'"
    by (simp add: c)
  moreover have "\<forall>c\<in>set ws1. isSpace c" "\<forall>c\<in>set ws2. isSpace c" "\<forall>c\<in>set ws3. isSpace c"
    "\<forall>c\<in>set (takeWhile isDigit r'). isDigit c"
    by (auto simp: ws1_def ws2_def ws3_def dest: set_takeWhileD)
  ultimately show ?thesis using tok ds rest n by blast
qed

lemma plainLine_None: "matchCaseMarker plainLine = None"
  by (simp add: plainLine_def str_def matchCaseMarker_def isSpace_def)

lemma markerLine_Some: "n < 10 \<Longrightarrow> matchCaseMarker (markerLine n) = Some (SafeInteger n)"
  by (simp add: markerLine_def str_def showNat_small matchCaseMarker_def isSpace_def isCaseToken_def
      ciLetter_def isDigit_def isWordChar_def Number_def decimalValue_def)

text \<open>
  Claim C10. A line is a case marker only when its first character after white space is
  the hash character, followed by white space, \<^verbatim>\<open>CASE\<close> in any letter case, white
  space, and a run of decimal digits that ends at a word boundary; and exactly such lines
  are markers. So \<^verbatim>\<open># CASE 12abc\<close> is no marker, no more than a line with another
  comment syntax, and the scan passes over a line that is no marker as over any other line.
  The id of a marker is the number that JavaScript makes of the digits: the integer itself
  when it is below \<open>2^53\<close>, as for \<^verbatim>\<open>9007199254740991\<close>, and an inexact number from
  there on, as for \<^verbatim>\<open>9007199254740993\<close>.
\<close>

theorem matchCaseMarker_hash_digits:
  "(matchCaseMarker text = Some n \<longleftrightarrow>
     (\<exists>ws1 ws2 tok ws3 ds rest.
           text = ws1 @ [35] @ ws2 @ tok @ ws3 @ ds @ rest \<and>
           (\<forall>c\<in>set ws1. isSpace c) \<and> (\<forall>c\<in>set ws2. isSpace c) \<and> isCaseToken tok \<and>
           (\<forall>c\<in>set ws3. isSpace c) \<and> ds \<noteq> [] \<and> (\<forall>c\<in>set ds. isDigit c) \<and>
           (rest = [] \<or> \<not> isWordChar (hd rest)) \<and> n = Number ds)) \<and>
   matchCaseMarker (str ''# CASE 12abc'') = None \<and>
   matchCaseMarker (str ''// CASE 12'') = None \<and>
   (matchCaseMarker text = None \<longrightarrow> scanLines (text # ls) i l = scanLines ls (Suc i) l) \<and>
   matchCaseMarker (str ''# CASE 9007199254740991'') = Some (SafeInteger 9007199254740991) \<and>
   matchCaseMarker (str ''# CASE 9007199254740993'') = Some (Inexact (str ''9007199254740993''))"
proof -
  have "matchCaseMarker (str ''# CASE 12abc'') = None"
    by (simp add: matchCaseMarker_def str_def isSpace_def isCaseToken_def ciLetter_def
        isDigit_def isWordChar_def)
  moreover have "matchCaseMarker (str ''// CASE 12'') = None"
    by (simp add: matchCaseMarker_def str_def isSpace_def)
  moreover have "matchCaseMarker text = Some n \<longleftrightarrow>
     (\<exists>ws1 ws2 tok ws3 ds rest.
           text = ws1 @ [35] @ ws2 @ tok @ ws3 @ ds @ rest \<and>
           (\<forall>c\<in>set ws1. isSpace c) \<and> (\<forall>c\<in>set ws2. isSpace c) \<and> isCaseToken tok \<and>
           (\<forall>c\<in>set ws3. isSpace c) \<and> ds \<noteq> [] \<and> (\<forall>c\<in>set ds. isDigit c) \<and>
           (rest = [] \<or> \<not> isWordChar (hd rest)) \<and> n = Number ds)"
    using matchCaseMarker_sound matchCaseMarker_complete by blast
  moreover have "matchCaseMarker text = None \<longrightarrow> scanLines (text # ls) i l = scanLines ls (Suc i) l"
    by simp
  moreover have "matchCaseMarker (str ''# CASE 9007199254740991'') = Some (SafeInteger 9007199254740991)"
    by (simp add: matchCaseMarker_def str_def isSpace_def isCaseToken_def ciLetter_def
        isDigit_def isWordChar_def Number_def decimalValue_def)
  moreover have "matchCaseMarker (str ''# CASE 9007199254740993'') = Some (Inexact (str ''9007199254740993''))"
    by (simp add: matchCaseMarker_def str_def isSpace_def isCaseToken_def ciLetter_def
        isDigit_def isWordChar_def Number_def decimalValue_def)
  ultimately show ?thesis by (simp only: simp_thms)
qed

theorem matchCaseMarker_hash_digits_witness:
  "matchCaseMarker (str ''  #case007 x'') = Some (SafeInteger 7) \<and>
   (\<exists>ws1 ws2 tok ws3 ds rest.
      str ''  #case007 x'' = ws1 @ [35] @ ws2 @ tok @ ws3 @ ds @ rest \<and>
      (\<forall>c\<in>set ws1. isSpace c) \<and> (\<forall>c\<in>set ws2. isSpace c) \<and> isCaseToken tok \<and>
      (\<forall>c\<in>set ws3. isSpace c) \<and> ds \<noteq> [] \<and> (\<forall>c\<in>set ds. isDigit c) \<and>
      (rest = [] \<or> \<not> isWordChar (hd rest)) \<and> SafeInteger 7 = Number ds) \<and>
   matchCaseMarker plainLine = None \<and>
   scanLines [plainLine] 0 0 = scanLines [] (Suc 0) 0"
proof -
  have m: "matchCaseMarker (str ''  #case007 x'') = Some (SafeInteger 7)"
    by (simp add: matchCaseMarker_def str_def isSpace_def isCaseToken_def ciLetter_def
        isDigit_def isWordChar_def Number_def decimalValue_def)
  note t1 = matchCaseMarker_hash_digits [of "str ''  #case007 x''" "SafeInteger 7"]
  note t2 = matchCaseMarker_hash_digits [of plainLine "SafeInteger 0" "[]" 0 0]
  from t1 m have "\<exists>ws1 ws2 tok ws3 ds rest.
      str ''  #case007 x'' = ws1 @ [35] @ ws2 @ tok @ ws3 @ ds @ rest \<and>
      (\<forall>c\<in>set ws1. isSpace c) \<and> (\<forall>c\<in>set ws2. isSpace c) \<and> isCaseToken tok \<and>
      (\<forall>c\<in>set ws3. isSpace c) \<and> ds \<noteq> [] \<and> (\<forall>c\<in>set ds. isDigit c) \<and>
      (rest = [] \<or> \<not> isWordChar (hd rest)) \<and> SafeInteger 7 = Number ds"
    by (simp only: simp_thms)
  moreover from t2 plainLine_None have "scanLines [plainLine] 0 0 = scanLines [] (Suc 0) 0"
    by (simp only: simp_thms)
  ultimately show ?thesis using m plainLine_None by (simp only: simp_thms)
qed

lemma scanLines_startLine_bounds:
  "c \<in> set (scanLines ls i l) \<Longrightarrow> int i \<le> startLine c \<and> startLine c < int i + int (length ls)"
proof (induction ls arbitrary: i)
  case Nil
  then show ?case by simp
next
  case (Cons t ls)
  then show ?case by (fastforce split: option.splits)
qed

lemma scanLines_endLine: "c \<in> set (scanLines ls i l) \<Longrightarrow> endLine c = l"
  by (induction ls arbitrary: i) (auto split: option.splits)

lemma scanLines_sorted: "sorted_wrt (<) (map startLine (scanLines ls i l))"
proof (induction ls arbitrary: i)
  case Nil
  then show ?case by simp
next
  case (Cons t ls)
  have "int i < startLine c" if "c \<in> set (scanLines ls (Suc i) l)" for c
    using scanLines_startLine_bounds [OF that] by simp
  with Cons show ?case by (auto split: option.splits)
qed

lemma fixEndLines_startLine: "map startLine (fixEndLines cs) = map startLine cs"
  by (induction cs rule: fixEndLines.induct) simp_all


lemma fixEndLines_length: "length (fixEndLines cs) = length cs"
  by (induction cs rule: fixEndLines.induct) simp_all

lemma fixEndLines_Nil_iff: "fixEndLines cs = [] \<longleftrightarrow> cs = []"
  by (induction cs rule: fixEndLines.induct) simp_all

lemma fixEndLines_nth_endLine:
  "Suc i < length cs \<Longrightarrow> endLine (fixEndLines cs ! i) = startLine (cs ! Suc i) - 1"
proof (induction cs arbitrary: i rule: fixEndLines.induct)
  case (1 c d cs)
  then show ?case by (cases i) simp_all
qed simp_all

lemma fixEndLines_last: "cs \<noteq> [] \<Longrightarrow> last (fixEndLines cs) = last cs"
  by (induction cs rule: fixEndLines.induct) (simp_all add: fixEndLines_Nil_iff)

lemma fixEndLines_nth_startLine: "i < length cs \<Longrightarrow> startLine (fixEndLines cs ! i) = startLine (cs ! i)"
  using fixEndLines_startLine [of cs] by (metis fixEndLines_length nth_map)

lemma scanLines_markers:
  "map (\<lambda>c. (caseId c, startLine c)) (scanLines ls i l) =
     map (\<lambda>j. (the (matchCaseMarker (ls ! j)), int (i + j)))
       (filter (\<lambda>j. matchCaseMarker (ls ! j) \<noteq> None) [0..<length ls])"
proof (induction ls arbitrary: i)
  case Nil
  then show ?case by simp
next
  case (Cons t ls)
  have u: "[0..<length (t # ls)] = 0 # map Suc [0..<length ls]"
    by (simp add: upt_conv_Cons map_Suc_upt del: upt_Suc)
  have f: "filter (\<lambda>j. matchCaseMarker ((t # ls) ! j) \<noteq> None) (map Suc [0..<length ls]) =
      map Suc (filter (\<lambda>j. matchCaseMarker (ls ! j) \<noteq> None) [0..<length ls])"
    by (simp add: filter_map comp_def)
  show ?case
    unfolding u by (cases "matchCaseMarker t") (simp_all add: f Cons.IH [of "Suc i"] comp_def del: not_None_eq)
qed

lemma fixEndLines_markers:
  "map (\<lambda>c. (caseId c, startLine c)) (fixEndLines cs) = map (\<lambda>c. (caseId c, startLine c)) cs"
  by (induction cs rule: fixEndLines.induct) simp_all

text \<open>
  Claim C6. For every document, the cases of \<open>extractCases\<close> are the marker lines of the
  document, one case for each marker line and in the order of the lines, with the number
  of the marker as id and the index of the line as \<open>startLine\<close>. So the cases
  are in ascending order of \<open>startLine\<close>, every case has \<open>startLine \<le> endLine\<close> (and
  a start line that is not negative), the \<open>endLine\<close> of every case but the last is the \<open>startLine\<close> of the
  next case minus one, and the \<open>endLine\<close> of the last case is the number of lines minus
  one.
\<close>

theorem extractCases_ranges:
  "map (\<lambda>c. (caseId c, startLine c)) (extractCases doc) =
     map (\<lambda>i. (the (matchCaseMarker (doc ! i)), int i))
       (filter (\<lambda>i. matchCaseMarker (doc ! i) \<noteq> None) [0..<length doc]) \<and>
   sorted_wrt (<) (map startLine (extractCases doc)) \<and>
   (\<forall>c \<in> set (extractCases doc). 0 \<le> startLine c \<and> startLine c \<le> endLine c) \<and>
   (\<forall>i. Suc i < length (extractCases doc) \<longrightarrow>
      endLine (extractCases doc ! i) = startLine (extractCases doc ! Suc i) - 1) \<and>
   (extractCases doc \<noteq> [] \<longrightarrow> endLine (last (extractCases doc)) = int (length doc) - 1)"
proof -
  define l where "l = int (length doc) - 1"
  define cs where "cs = scanLines doc 0 l"
  have ex: "extractCases doc = fixEndLines cs"
    by (simp add: extractCases_def cs_def l_def)
  have srt: "sorted_wrt (<) (map startLine cs)"
    unfolding cs_def by (rule scanLines_sorted)
  have bnd: "0 \<le> startLine c \<and> startLine c \<le> l" if "c \<in> set cs" for c
    using scanLines_startLine_bounds [of c doc 0 l] that by (simp add: cs_def l_def)
  have A: "sorted_wrt (<) (map startLine (extractCases doc))"
    by (simp add: ex fixEndLines_startLine srt)
  have C: "endLine (extractCases doc ! i) = startLine (extractCases doc ! Suc i) - 1"
    if "Suc i < length (extractCases doc)" for i
    using that by (simp add: ex fixEndLines_length fixEndLines_nth_endLine fixEndLines_nth_startLine)
  have D: "endLine (last (extractCases doc)) = l" if "extractCases doc \<noteq> []"
  proof -
    from that have ne: "cs \<noteq> []" by (simp add: ex fixEndLines_Nil_iff)
    then have "last cs \<in> set cs" by simp
    then show ?thesis by (simp add: ex fixEndLines_last ne scanLines_endLine [of _ doc 0 l, folded cs_def])
  qed
  have B: "0 \<le> startLine c \<and> startLine c \<le> endLine c" if "c \<in> set (extractCases doc)" for c
  proof -
    from that obtain i where i: "i < length cs" and c: "c = fixEndLines cs ! i"
      by (auto simp: ex in_set_conv_nth fixEndLines_length)
    have st: "startLine c = startLine (cs ! i)" by (simp add: c i fixEndLines_nth_startLine)
    have lo: "0 \<le> startLine c" using bnd [of "cs ! i"] i by (simp add: st)
    show ?thesis
    proof (cases "Suc i < length cs")
      case True
      have "startLine (cs ! i) < startLine (cs ! Suc i)"
        using srt True by (simp add: sorted_wrt_iff_nth_less)
      then show ?thesis using lo by (simp add: c st [unfolded c] fixEndLines_nth_endLine True)
    next
      case False
      with i have "i = length cs - 1" by simp
      moreover have ne: "cs \<noteq> []" using i by auto
      ultimately have "c = last (fixEndLines cs)"
        by (simp add: c last_conv_nth fixEndLines_Nil_iff fixEndLines_length)
      then have "endLine c = l"
        using D ne by (simp add: ex fixEndLines_Nil_iff)
      then show ?thesis using lo bnd [of "cs ! i"] i by (simp add: st)
    qed
  qed
  have M: "map (\<lambda>c. (caseId c, startLine c)) (extractCases doc) =
     map (\<lambda>i. (the (matchCaseMarker (doc ! i)), int i))
       (filter (\<lambda>i. matchCaseMarker (doc ! i) \<noteq> None) [0..<length doc])"
    using scanLines_markers [of doc 0 l] by (simp add: ex fixEndLines_markers cs_def)
  show ?thesis using A B C D M by (simp add: l_def)
qed

text \<open>Markers at the lines 2, 10 and 25 of 30 lines give the ranges 2 to 9, 10 to 24, 25 to 29.\<close>

theorem extractCases_ranges_witness:
  "extractCases thirtyLineDoc =
     [\<lparr>caseId = SafeInteger 1, startLine = 2, endLine = 9\<rparr>, \<lparr>caseId = SafeInteger 2, startLine = 10, endLine = 24\<rparr>,
      \<lparr>caseId = SafeInteger 3, startLine = 25, endLine = 29\<rparr>] \<and>
   map (\<lambda>c. (caseId c, startLine c)) (extractCases thirtyLineDoc) =
     map (\<lambda>i. (the (matchCaseMarker (thirtyLineDoc ! i)), int i))
       (filter (\<lambda>i. matchCaseMarker (thirtyLineDoc ! i) \<noteq> None) [0..<length thirtyLineDoc]) \<and>
   sorted_wrt (<) (map startLine (extractCases thirtyLineDoc)) \<and>
   startLine (extractCases thirtyLineDoc ! 0) \<le> endLine (extractCases thirtyLineDoc ! 0) \<and>
   endLine (extractCases thirtyLineDoc ! 0) = startLine (extractCases thirtyLineDoc ! Suc 0) - 1 \<and>
   extractCases thirtyLineDoc \<noteq> [] \<and>
   endLine (last (extractCases thirtyLineDoc)) = int (length thirtyLineDoc) - 1"
proof -
  have e: "extractCases thirtyLineDoc =
     [\<lparr>caseId = SafeInteger 1, startLine = 2, endLine = 9\<rparr>, \<lparr>caseId = SafeInteger 2, startLine = 10, endLine = 24\<rparr>,
      \<lparr>caseId = SafeInteger 3, startLine = 25, endLine = 29\<rparr>]"
    by (simp add: extractCases_def thirtyLineDoc_def plainLine_None markerLine_Some)
  note t = extractCases_ranges [of thirtyLineDoc]
  have ne: "extractCases thirtyLineDoc \<noteq> []"
    by (simp add: e)
  have len: "Suc 0 < length (extractCases thirtyLineDoc)"
    by (simp add: e)
  have "0 < length (extractCases thirtyLineDoc)"
    by (simp add: e)
  then have mem: "extractCases thirtyLineDoc ! 0 \<in> set (extractCases thirtyLineDoc)"
    by (rule nth_mem)
  from t have "sorted_wrt (<) (map startLine (extractCases thirtyLineDoc))"
    by blast
  moreover from t have "map (\<lambda>c. (caseId c, startLine c)) (extractCases thirtyLineDoc) =
     map (\<lambda>i. (the (matchCaseMarker (thirtyLineDoc ! i)), int i))
       (filter (\<lambda>i. matchCaseMarker (thirtyLineDoc ! i) \<noteq> None) [0..<length thirtyLineDoc])"
    by blast
  moreover from t mem
  have "startLine (extractCases thirtyLineDoc ! 0) \<le> endLine (extractCases thirtyLineDoc ! 0)"
    by blast
  moreover from t len
  have "endLine (extractCases thirtyLineDoc ! 0) = startLine (extractCases thirtyLineDoc ! Suc 0) - 1"
    by blast
  moreover from t ne
  have "endLine (last (extractCases thirtyLineDoc)) = int (length thirtyLineDoc) - 1"
    by blast
  ultimately show ?thesis using e ne by (simp only: simp_thms)
qed

section \<open>Fingerprints and what they cover\<close>

lemma fingerprint_single: "fingerprint [d] = fingerprintEntry d"
  by (simp add: fingerprint_def)


lemma extractCases_flatDoc: "extractCases flatDoc = []"
  by (simp add: extractCases_def flatDoc_def str_def matchCaseMarker_def isSpace_def)

lemma flatDoc_lines: "length flatDoc = 2" "flatDoc ! 0 = str ''x = input()''" "flatDoc ! Suc 0 = str ''print(x)''"
  by (simp_all add: flatDoc_def)

text \<open>
  Claim C7, as the code has it. The fingerprint of flat mode is the same for every
  permutation of the diagnostics. Changing the message of one diagnostic, its positions
  kept, changes the fingerprint when the diagnostic is the only one, or when no message
  (the new one included) holds the separator character \<^verbatim>\<open>|\<close> (code unit 124).
\<close>

theorem fingerprint_permutation_message:
  "(mset ds' = mset ds \<longrightarrow> fingerprint ds' = fingerprint ds) \<and>
   (i < length ds \<and> m \<noteq> message (ds ! i) \<and>
    (length ds = 1 \<or> (124 \<notin> set m \<and> (\<forall>d\<in>set ds. 124 \<notin> set (message d)))) \<longrightarrow>
      fingerprint (ds[i := (ds ! i)\<lparr>message := m\<rparr>]) \<noteq> fingerprint ds)"
proof (intro conjI impI)
  assume "mset ds' = mset ds"
  then have "mset (map fingerprintEntry ds') = mset (map fingerprintEntry ds)"
    by simp
  then show "fingerprint ds' = fingerprint ds"
    by (rule fingerprint_mset)
next
  assume a: "i < length ds \<and> m \<noteq> message (ds ! i) \<and>
    (length ds = 1 \<or> (124 \<notin> set m \<and> (\<forall>d\<in>set ds. 124 \<notin> set (message d))))"
  define d' where "d' = (ds ! i)\<lparr>message := m\<rparr>"
  have ne: "fingerprintEntry d' \<noteq> fingerprintEntry (ds ! i)"
    using a by (simp add: fingerprintEntry_inj d'_def)
  show "fingerprint (ds[i := (ds ! i)\<lparr>message := m\<rparr>]) \<noteq> fingerprint ds"
  proof (cases "length ds = 1")
    case True
    then obtain d where d: "ds = [d]" by (cases ds) auto
    with a have "i = 0" by simp
    with ne d show ?thesis by (simp add: fingerprint_single d'_def)
  next
    case False
    with a have nb: "124 \<notin> set m" "\<forall>d\<in>set ds. 124 \<notin> set (message d)" by auto
    show ?thesis
    proof
      assume eq: "fingerprint (ds[i := (ds ! i)\<lparr>message := m\<rparr>]) = fingerprint ds"
      have "\<forall>d\<in>set (ds[i := d']). 124 \<notin> set (message d)"
      proof
        fix d assume "d \<in> set (ds[i := d'])"
        then have "d = d' \<or> d \<in> set ds" using set_update_subset_insert [of ds i d'] by auto
        then show "124 \<notin> set (message d)" using nb by (auto simp: d'_def)
      qed
      from fingerprint_inj [OF this nb(2) eq [folded d'_def]]
      have "mset (map fingerprintEntry (ds[i := d'])) = mset (map fingerprintEntry ds)" .
      then have "mset ((map fingerprintEntry ds)[i := fingerprintEntry d']) = mset (map fingerprintEntry ds)"
        by (simp add: map_update)
      moreover have "i < length (map fingerprintEntry ds)" using a by simp
      ultimately have u: "add_mset (fingerprintEntry d') (mset (map fingerprintEntry ds) - {#fingerprintEntry (ds ! i)#})
          = mset (map fingerprintEntry ds)"
        using a by (simp add: mset_update)
      define N where "N = mset (map fingerprintEntry ds) - {#fingerprintEntry (ds ! i)#}"
      have "fingerprintEntry (ds ! i) \<in># mset (map fingerprintEntry ds)"
        using a by simp
      then have M: "mset (map fingerprintEntry ds) = add_mset (fingerprintEntry (ds ! i)) N"
        unfolding N_def by (rule insert_DiffM [symmetric])
      from u have "add_mset (fingerprintEntry d') N = mset (map fingerprintEntry ds)"
        unfolding N_def .
      from this M have "add_mset (fingerprintEntry d') N = add_mset (fingerprintEntry (ds ! i)) N"
        by (rule trans)
      then have "{#fingerprintEntry d'#} + N = {#fingerprintEntry (ds ! i)#} + N"
        by simp
      then have "{#fingerprintEntry d'#} = {#fingerprintEntry (ds ! i)#}"
        by (simp only: add_right_cancel)
      then have "fingerprintEntry d' = fingerprintEntry (ds ! i)"
        by simp
      with ne show False by simp
    qed
  qed
qed


theorem fingerprint_permutation_message_witness:
  "fingerprint [zeroDiag (str ''b''), zeroDiag (str ''a'')] =
     fingerprint [zeroDiag (str ''a''), zeroDiag (str ''b'')] \<and>
   fingerprint ([zeroDiag (str ''a''), zeroDiag (str ''b'')]
       [0 := (zeroDiag (str ''a''))\<lparr>message := str ''c''\<rparr>]) \<noteq>
     fingerprint [zeroDiag (str ''a''), zeroDiag (str ''b'')]"
  using fingerprint_permutation_message [of "[zeroDiag (str ''b''), zeroDiag (str ''a'')]"
     "[zeroDiag (str ''a''), zeroDiag (str ''b'')]" 0 "str ''c''"]
  by (simp add: zeroDiag_def str_def)

text \<open>
  Claim C7 as stated fails: with the separator in the messages, changing the message of the
  first of two diagnostics at the same position leaves the fingerprint as it was.
\<close>

theorem fingerprint_message_counterexample:
  "message collideA' \<noteq> message collideA \<and>
   fingerprint ([collideA, collideB][0 := collideA\<lparr>message := message collideA'\<rparr>]) =
     fingerprint [collideA, collideB]"
  by (simp add: collideA_def collideA'_def collideB_def zeroDiag_def fingerprint_def
      fingerprintEntry_def showNat_small str_def)

section \<open>The reporter, document by document\<close>

lemma channelLines_append: "channelLines (xs @ ys) = channelLines xs @ channelLines ys"
  by (induction xs rule: channelLines.induct) simp_all

lemma terminalWrites_append: "terminalWrites (xs @ ys) = terminalWrites xs @ terminalWrites ys"
  by (induction xs rule: terminalWrites.induct) simp_all

lemma channelLines_caseEvents: "channelLines (caseEvents w f cs) = map f cs"
  by (induction cs) (simp_all add: caseEvents_def)

lemma terminalWrites_caseEvents: "terminalWrites (caseEvents w f cs) = map (\<lambda>c. f c @ [13, 10]) cs"
  by (induction cs) (simp_all add: caseEvents_def)

lemma caseEvents_Cons:
  "caseEvents w f (c # cs) = ChannelAppendLine (f c) # WriterFire w (f c @ [13, 10]) # caseEvents w f cs"
  by (simp add: caseEvents_def)

lemma renderCases_eq:
  "renderCases js w ds el cs s =
     s\<lparr>events := events s @ caseEvents w (\<lambda>c. caseLine js c (status (caseHasIssue ds c)) el) cs\<rparr>"
proof (induction cs arbitrary: s)
  case Nil
  then show ?case by (simp add: caseEvents_def)
next
  case (Cons c cs)
  show ?case
    by (simp add: Cons.IH caseEvents_Cons emit_def Let_def)
qed

lemma renderFlat_state:
  "\<exists>new. snd (renderFlat n doc ds s) = s\<lparr>events := events s @ new\<rparr> \<and> terminalWrites new = []"
proof (induction ds arbitrary: s)
  case Nil
  have "snd (renderFlat n doc [] s) = s\<lparr>events := events s @ []\<rparr> \<and> terminalWrites [] = []"
    by simp
  then show ?case by blast
next
  case (Cons d ds)
  show ?case
  proof (cases "rangeStartLine d < length doc")
    case False
    have "snd (renderFlat n doc (d # ds) s) = s\<lparr>events := events s @ []\<rparr> \<and> terminalWrites [] = []"
      using False by (simp add: Let_def)
    then show ?thesis by blast
  next
    case True
    define s' where "s' = emit (ChannelAppendLine (doc ! rangeStartLine d)) (emit (ChannelAppendLine (flatLine n d)) s)"
    from Cons.IH [of s'] obtain new where
      new: "snd (renderFlat n doc ds s') = s'\<lparr>events := events s' @ new\<rparr>" "terminalWrites new = []"
      by blast
    have "snd (renderFlat n doc (d # ds) s) =
        s\<lparr>events := events s @ ([ChannelAppendLine (flatLine n d), ChannelAppendLine (doc ! rangeStartLine d)] @ new)\<rparr>"
      using True new(1) by (simp add: Let_def s'_def emit_def)
    moreover have "terminalWrites ([ChannelAppendLine (flatLine n d), ChannelAppendLine (doc ! rangeStartLine d)] @ new) = []"
      using new(2) by simp
    ultimately show ?thesis by blast
  qed
qed

lemma reportUri_fetch_fail:
  "openTextDocument h u = None \<Longrightarrow> reportUri js h u (sh, tsh, s) = (Rejected, sh, tsh, s)"
  by (simp add: reportUri_def)

lemma reportUri_flat_empty:
  "openTextDocument h u = Some doc \<Longrightarrow> extractCases doc = [] \<Longrightarrow> filteredDiagnostics h u = [] \<Longrightarrow>
   reportUri js h u (sh, tsh, s) = (Fulfilled, sh, tsh, s)"
  by (simp add: reportUri_def)

lemma reportUri_flat_skip:
  "openTextDocument h u = Some doc \<Longrightarrow> extractCases doc = [] \<Longrightarrow>
   lastReports s u = Some (fingerprint (filteredDiagnostics h u)) \<Longrightarrow>
   reportUri js h u (sh, tsh, s) = (Fulfilled, sh, tsh, s)"
  by (simp add: reportUri_def Let_def)

lemma reportUri_flat_render:
  "openTextDocument h u = Some doc \<Longrightarrow> extractCases doc = [] \<Longrightarrow> filteredDiagnostics h u \<noteq> [] \<Longrightarrow>
   lastReports s u \<noteq> Some (fingerprint (filteredDiagnostics h u)) \<Longrightarrow>
   reportUri js h u (sh, tsh, s) =
     (fst (renderFlat (baseName h u) doc (filteredDiagnostics h u)
        (s\<lparr>lastReports := (lastReports s)(u \<mapsto> fingerprint (filteredDiagnostics h u)),
           events := events s @ (if sh then [] else [ChannelShow])\<rparr>)),
      True, tsh,
      snd (renderFlat (baseName h u) doc (filteredDiagnostics h u)
        (s\<lparr>lastReports := (lastReports s)(u \<mapsto> fingerprint (filteredDiagnostics h u)),
           events := events s @ (if sh then [] else [ChannelShow])\<rparr>)))"
  by (cases sh) (simp_all add: reportUri_def Let_def emit_def split_beta)

lemma readElapsedMs_state:
  "snd (readElapsedMs h u s) =
     s\<lparr>clockReads := clockReads s + (case lastChangeAt s u of Some t \<Rightarrow> 1 | None \<Rightarrow> 2)\<rparr>"
  by (simp add: readElapsedMs_def Let_def split: option.splits)

lemma readElapsedMs_value:
  "fst (readElapsedMs h u s) =
     dateNow h (clockReads s) -
       (case lastChangeAt s u of Some t \<Rightarrow> t | None \<Rightarrow> dateNow h (clockReads s + 1))"
  by (simp add: readElapsedMs_def Let_def split: option.splits)

lemma reportUri_case_skip:
  "openTextDocument h u = Some doc \<Longrightarrow> extractCases doc \<noteq> [] \<Longrightarrow>
   lastReports s u = Some (reportKey js (filteredDiagnostics h u) (extractCases doc)) \<Longrightarrow>
   reportUri js h u (sh, tsh, s) = (Fulfilled, sh, tsh, snd (readElapsedMs h u s))"
  by (simp add: reportUri_def Let_def split_beta readElapsedMs_state)

lemma reportUri_case_render:
  assumes "openTextDocument h u = Some doc" "extractCases doc \<noteq> []"
    and "lastReports s u \<noteq> Some (reportKey js (filteredDiagnostics h u) (extractCases doc))"
  shows "reportUri js h u (sh, tsh, s) =
     (Fulfilled, True, True,
      s\<lparr>caseTerminal := Some (fst (fst (getCaseTerminal s))),
        caseTerminalWriter := Some (snd (fst (getCaseTerminal s))),
        terminalsCreated := terminalsCreated (snd (getCaseTerminal s)),
        lastReports := (lastReports s)(u \<mapsto> reportKey js (filteredDiagnostics h u) (extractCases doc)),
        clockReads := clockReads (snd (readElapsedMs h u s)),
        events := events s @ casePrelude sh tsh s @
          caseEvents (snd (fst (getCaseTerminal s)))
            (\<lambda>c. caseLine js c (status (caseHasIssue (filteredDiagnostics h u) c))
                   (div1000 (nat (max 0 (fst (readElapsedMs h u s))))))
            (extractCases doc)\<rparr>)"
  using assms
  by (cases "caseTerminal s"; cases "caseTerminalWriter s"; cases sh; cases tsh)
    (simp_all add: reportUri_def Let_def split_beta readElapsedMs_state getCaseTerminal_def
      renderCases_eq emit_def casePrelude_def)

section \<open>A batch of documents\<close>

lemma reportXssDiagnostics_single:
  "outputChannel s \<Longrightarrow>
   reportXssDiagnostics js h [u] s =
     (fst (reportUri js h u (False, False, s)), snd (snd (snd (reportUri js h u (False, False, s)))))"
  by (simp add: reportXssDiagnostics_def split: prod.splits completion.splits)

lemma reportLoop_append:
  "reportLoop js h (us @ vs) v =
     (case reportLoop js h us v of
        (Rejected, v') \<Rightarrow> (Rejected, v')
      | (Fulfilled, v') \<Rightarrow> reportLoop js h vs v')"
  by (induction us arbitrary: v) (auto split: prod.splits completion.splits)

lemma reportLoop_fetch_fail:
  assumes "openTextDocument h u = None"
  shows "reportLoop js h (us @ u # vs) v = (Rejected, snd (reportLoop js h us v))"
proof -
  obtain r v' where r: "reportLoop js h us v = (r, v')" by (cases "reportLoop js h us v")
  obtain sh tsh s where v': "v' = (sh, tsh, s)" by (cases v')
  show ?thesis
    by (cases r) (simp_all add: reportLoop_append r v' reportUri_fetch_fail [OF assms])
qed

text \<open>
  Claim C4, as the code has it. When the text of a document of the batch cannot be fetched,
  the exception ends the loop: the documents before it have been processed as usual, the
  failing document and every document after it are not processed, and the promise of
  \<^verbatim>\<open>reportXssDiagnostics\<close> is rejected.
\<close>

theorem fetch_failure_aborts_batch:
  "openTextDocument h u = None \<longrightarrow>
     reportLoop js h (us @ u # vs) v = (Rejected, snd (reportLoop js h us v)) \<and>
     (outputChannel s \<longrightarrow>
        reportXssDiagnostics js h (us @ u # vs) s = (Rejected, snd (reportXssDiagnostics js h us s)))"
proof (intro impI conjI)
  assume f: "openTextDocument h u = None"
  show "reportLoop js h (us @ u # vs) v = (Rejected, snd (reportLoop js h us v))"
    using f by (rule reportLoop_fetch_fail)
  assume "outputChannel s"
  then show "reportXssDiagnostics js h (us @ u # vs) s = (Rejected, snd (reportXssDiagnostics js h us s))"
    by (simp add: reportXssDiagnostics_def reportLoop_fetch_fail [OF f] split_beta)
qed

lemma flatDoc_pass:
  "reportXssDiagnostics sampleEngine failingHost [appUri] initialState =
    (Fulfilled, initialState\<lparr>lastReports := [appUri \<mapsto> str ''0:0:0:5:tainted''],
       events := [ChannelShow, ChannelAppendLine (str ''[XSS] app.py:1:1 tainted''),
                  ChannelAppendLine (str ''x = input()'')]\<rparr>)"
  by (simp add: reportXssDiagnostics_def reportUri_def filteredDiagnostics_def failingHost_def
      initialState_def extractCases_flatDoc appUri_def brokenUri_def
      diagAt_def fingerprint_def fingerprintEntry_def showNat_small emit_def flatLine_def Let_def
      flatDoc_lines str_def)

text \<open>
  Claim C4 as stated fails: in a batch of a document that cannot be opened and a document
  with a diagnostic, nothing is written for the second document, which alone is reported.
\<close>

theorem fetch_failure_counterexample:
  "openTextDocument failingHost brokenUri = None \<and>
   reportXssDiagnostics sampleEngine failingHost [brokenUri, appUri] initialState = (Rejected, initialState) \<and>
   events (snd (reportXssDiagnostics sampleEngine failingHost [appUri] initialState)) =
     [ChannelShow, ChannelAppendLine (str ''[XSS] app.py:1:1 tainted''),
      ChannelAppendLine (str ''x = input()'')]"
proof -
  have "openTextDocument failingHost brokenUri = None"
    by (simp add: failingHost_def)
  moreover from this
  have "reportXssDiagnostics sampleEngine failingHost [brokenUri, appUri] initialState = (Rejected, initialState)"
    by (simp add: reportXssDiagnostics_def reportUri_fetch_fail initialState_def)
  ultimately show ?thesis
    by (simp add: flatDoc_pass)
qed

theorem fetch_failure_aborts_batch_witness:
  "openTextDocument failingHost brokenUri = None \<and>
   reportXssDiagnostics sampleEngine failingHost ([appUri] @ brokenUri # [appUri]) initialState =
     (Rejected, initialState\<lparr>lastReports := [appUri \<mapsto> str ''0:0:0:5:tainted''],
       events := [ChannelShow, ChannelAppendLine (str ''[XSS] app.py:1:1 tainted''),
                  ChannelAppendLine (str ''x = input()'')]\<rparr>)"
proof -
  have f: "openTextDocument failingHost brokenUri = None"
    by (simp add: failingHost_def)
  have o: "outputChannel initialState"
    by (simp add: initialState_def)
  from fetch_failure_aborts_batch [of failingHost brokenUri sampleEngine "[appUri]" "[appUri]" _ initialState] f o
  have "reportXssDiagnostics sampleEngine failingHost ([appUri] @ brokenUri # [appUri]) initialState =
      (Rejected, snd (reportXssDiagnostics sampleEngine failingHost [appUri] initialState))"
    by blast
  with f show ?thesis by (simp only: flatDoc_pass snd_conv simp_thms)
qed

section \<open>A second pass\<close>

lemma renderFlat_fields:
  "lastReports (snd (renderFlat n doc ds s)) = lastReports s \<and>
   lastChangeAt (snd (renderFlat n doc ds s)) = lastChangeAt s \<and>
   outputChannel (snd (renderFlat n doc ds s)) = outputChannel s \<and>
   caseTerminal (snd (renderFlat n doc ds s)) = caseTerminal s \<and>
   caseTerminalWriter (snd (renderFlat n doc ds s)) = caseTerminalWriter s \<and>
   terminalsCreated (snd (renderFlat n doc ds s)) = terminalsCreated s \<and>
   clockReads (snd (renderFlat n doc ds s)) = clockReads s"
proof -
  from renderFlat_state [of n doc ds s] obtain new where
    "snd (renderFlat n doc ds s) = s\<lparr>events := events s @ new\<rparr>" by blast
  then show ?thesis by simp
qed

lemma reportUri_stored:
  assumes "openTextDocument h u = Some doc"
    and "extractCases doc \<noteq> [] \<or> filteredDiagnostics h u \<noteq> []"
  shows "lastReports (snd (snd (snd (reportUri js h u (sh, tsh, s))))) u =
     Some (if extractCases doc \<noteq> [] then reportKey js (filteredDiagnostics h u) (extractCases doc)
           else fingerprint (filteredDiagnostics h u))"
proof (cases "extractCases doc = []")
  case flat: True
  with assms(2) have ne: "filteredDiagnostics h u \<noteq> []" by simp
  show ?thesis
  proof (cases "lastReports s u = Some (fingerprint (filteredDiagnostics h u))")
    case True
    then show ?thesis
      by (simp add: reportUri_flat_skip [OF assms(1) flat True] flat)
  next
    case False
    show ?thesis
      by (simp add: reportUri_flat_render [OF assms(1) flat ne False] flat renderFlat_fields)
  qed
next
  case cm: False
  show ?thesis
  proof (cases "lastReports s u = Some (reportKey js (filteredDiagnostics h u) (extractCases doc))")
    case True
    then show ?thesis
      by (simp add: reportUri_case_skip [OF assms(1) cm True] cm readElapsedMs_state)
  next
    case False
    show ?thesis
      by (simp add: reportUri_case_render [OF assms(1) cm False] cm)
  qed
qed

lemma reportUri_outputChannel:
  "outputChannel (snd (snd (snd (reportUri js h u (sh, tsh, s))))) = outputChannel s"
proof (cases "openTextDocument h u")
  case None
  then show ?thesis by (simp add: reportUri_fetch_fail)
next
  case (Some doc)
  show ?thesis
  proof (cases "extractCases doc = []")
    case flat: True
    show ?thesis
    proof (cases "filteredDiagnostics h u = []")
      case True
      then show ?thesis by (simp add: reportUri_flat_empty [OF Some flat])
    next
      case ne: False
      show ?thesis
      proof (cases "lastReports s u = Some (fingerprint (filteredDiagnostics h u))")
        case True
        then show ?thesis by (simp add: reportUri_flat_skip [OF Some flat])
      next
        case False
        then show ?thesis
          by (simp add: reportUri_flat_render [OF Some flat ne False] renderFlat_fields)
      qed
    qed
  next
    case cm: False
    show ?thesis
    proof (cases "lastReports s u = Some (reportKey js (filteredDiagnostics h u) (extractCases doc))")
      case True
      then show ?thesis by (simp add: reportUri_case_skip [OF Some cm True] readElapsedMs_state)
    next
      case False
      then show ?thesis by (simp add: reportUri_case_render [OF Some cm False])
    qed
  qed
qed

text \<open>A pass over a document whose key is stored changes the count of clock readings at most.\<close>

lemma reportUri_noop:
  assumes "\<And>doc. openTextDocument h u = Some doc \<Longrightarrow>
     extractCases doc \<noteq> [] \<or> filteredDiagnostics h u \<noteq> [] \<Longrightarrow>
     lastReports s u = Some (if extractCases doc \<noteq> [] then reportKey js (filteredDiagnostics h u) (extractCases doc)
           else fingerprint (filteredDiagnostics h u))"
  shows "\<exists>k. snd (snd (snd (reportUri js h u (sh, tsh, s)))) = s\<lparr>clockReads := k\<rparr>"
proof (cases "openTextDocument h u")
  case None
  then have "snd (snd (snd (reportUri js h u (sh, tsh, s)))) = s\<lparr>clockReads := clockReads s\<rparr>"
    by (simp add: reportUri_fetch_fail)
  then show ?thesis by blast
next
  case (Some doc)
  show ?thesis
  proof (cases "extractCases doc = []")
    case flat: True
    show ?thesis
    proof (cases "filteredDiagnostics h u = []")
      case True
      then have "snd (snd (snd (reportUri js h u (sh, tsh, s)))) = s\<lparr>clockReads := clockReads s\<rparr>"
        by (simp add: reportUri_flat_empty [OF Some flat])
      then show ?thesis by blast
    next
      case False
      with assms [OF Some] flat have "lastReports s u = Some (fingerprint (filteredDiagnostics h u))"
        by simp
      then have "snd (snd (snd (reportUri js h u (sh, tsh, s)))) = s\<lparr>clockReads := clockReads s\<rparr>"
        by (simp add: reportUri_flat_skip [OF Some flat])
      then show ?thesis by blast
    qed
  next
    case cm: False
    with assms [OF Some] have "lastReports s u = Some (reportKey js (filteredDiagnostics h u) (extractCases doc))"
      by simp
    then have "snd (snd (snd (reportUri js h u (sh, tsh, s)))) =
        s\<lparr>clockReads := clockReads s + (case lastChangeAt s u of Some t \<Rightarrow> 1 | None \<Rightarrow> 2)\<rparr>"
      by (simp add: reportUri_case_skip [OF Some cm] readElapsedMs_state)
    then show ?thesis by blast
  qed
qed

lemma second_pass_state:
  "openTextDocument h' u = openTextDocument h u \<and> filteredDiagnostics h' u = filteredDiagnostics h u \<longrightarrow>
     (\<exists>k. snd (reportXssDiagnostics js h' [u] (snd (reportXssDiagnostics js h [u] s))) =
            (snd (reportXssDiagnostics js h [u] s))\<lparr>clockReads := k\<rparr>)"
proof
  assume same: "openTextDocument h' u = openTextDocument h u \<and> filteredDiagnostics h' u = filteredDiagnostics h u"
  define s1 where "s1 = snd (reportXssDiagnostics js h [u] s)"
  show "\<exists>k. snd (reportXssDiagnostics js h' [u] s1) = s1\<lparr>clockReads := k\<rparr>"
  proof (cases "outputChannel s")
    case False
    then have "s1 = s" by (simp add: s1_def reportXssDiagnostics_def)
    with False have "snd (reportXssDiagnostics js h' [u] s1) = s1\<lparr>clockReads := clockReads s1\<rparr>"
      by (simp add: reportXssDiagnostics_def)
    then show ?thesis by blast
  next
    case True
    then have s1: "s1 = snd (snd (snd (reportUri js h u (False, False, s))))"
      by (simp add: s1_def reportXssDiagnostics_single)
    then have oc: "outputChannel s1"
      using True by (simp add: reportUri_outputChannel)
    have "\<exists>k. snd (snd (snd (reportUri js h' u (False, False, s1)))) = s1\<lparr>clockReads := k\<rparr>"
    proof (rule reportUri_noop)
      fix doc
      assume d: "openTextDocument h' u = Some doc"
        and m: "extractCases doc \<noteq> [] \<or> filteredDiagnostics h' u \<noteq> []"
      from d same have d': "openTextDocument h u = Some doc" by simp
      from m same have m': "extractCases doc \<noteq> [] \<or> filteredDiagnostics h u \<noteq> []" by simp
      from reportUri_stored [OF d' m', of js False False s] same
      show "lastReports s1 u = Some (if extractCases doc \<noteq> [] then reportKey js (filteredDiagnostics h' u) (extractCases doc)
           else fingerprint (filteredDiagnostics h' u))"
        by (simp add: s1)
    qed
    then show ?thesis
      using oc by (simp add: reportXssDiagnostics_single)
  qed
qed

text \<open>
  Claim C5. A second pass over a document whose text and filtered diagnostics are what
  they were at the first pass writes nothing to either sink and leaves the stored state
  as it was: the state after the second pass is the state after the first, up to the count
  of clock readings of the host (the clock is read before the keys are compared).
\<close>

theorem second_pass_is_noop:
  "openTextDocument h' u = openTextDocument h u \<and> filteredDiagnostics h' u = filteredDiagnostics h u \<longrightarrow>
     (\<exists>k. snd (reportXssDiagnostics js h' [u] (snd (reportXssDiagnostics js h [u] s))) =
            (snd (reportXssDiagnostics js h [u] s))\<lparr>clockReads := k\<rparr>) \<and>
     events (snd (reportXssDiagnostics js h' [u] (snd (reportXssDiagnostics js h [u] s)))) =
       events (snd (reportXssDiagnostics js h [u] s)) \<and>
     lastReports (snd (reportXssDiagnostics js h' [u] (snd (reportXssDiagnostics js h [u] s)))) =
       lastReports (snd (reportXssDiagnostics js h [u] s)) \<and>
     lastChangeAt (snd (reportXssDiagnostics js h' [u] (snd (reportXssDiagnostics js h [u] s)))) =
       lastChangeAt (snd (reportXssDiagnostics js h [u] s)) \<and>
     caseTerminal (snd (reportXssDiagnostics js h' [u] (snd (reportXssDiagnostics js h [u] s)))) =
       caseTerminal (snd (reportXssDiagnostics js h [u] s)) \<and>
     caseTerminalWriter (snd (reportXssDiagnostics js h' [u] (snd (reportXssDiagnostics js h [u] s)))) =
       caseTerminalWriter (snd (reportXssDiagnostics js h [u] s))"
proof
  assume same: "openTextDocument h' u = openTextDocument h u \<and> filteredDiagnostics h' u = filteredDiagnostics h u"
  with second_pass_state [of h' u h js s] obtain k where
    k: "snd (reportXssDiagnostics js h' [u] (snd (reportXssDiagnostics js h [u] s))) =
            (snd (reportXssDiagnostics js h [u] s))\<lparr>clockReads := k\<rparr>"
    by blast
  have "\<exists>k. snd (reportXssDiagnostics js h' [u] (snd (reportXssDiagnostics js h [u] s))) =
            (snd (reportXssDiagnostics js h [u] s))\<lparr>clockReads := k\<rparr>"
    using k by blast
  then show "(\<exists>k. snd (reportXssDiagnostics js h' [u] (snd (reportXssDiagnostics js h [u] s))) =
            (snd (reportXssDiagnostics js h [u] s))\<lparr>clockReads := k\<rparr>) \<and>
     events (snd (reportXssDiagnostics js h' [u] (snd (reportXssDiagnostics js h [u] s)))) =
       events (snd (reportXssDiagnostics js h [u] s)) \<and>
     lastReports (snd (reportXssDiagnostics js h' [u] (snd (reportXssDiagnostics js h [u] s)))) =
       lastReports (snd (reportXssDiagnostics js h [u] s)) \<and>
     lastChangeAt (snd (reportXssDiagnostics js h' [u] (snd (reportXssDiagnostics js h [u] s)))) =
       lastChangeAt (snd (reportXssDiagnostics js h [u] s)) \<and>
     caseTerminal (snd (reportXssDiagnostics js h' [u] (snd (reportXssDiagnostics js h [u] s)))) =
       caseTerminal (snd (reportXssDiagnostics js h [u] s)) \<and>
     caseTerminalWriter (snd (reportXssDiagnostics js h' [u] (snd (reportXssDiagnostics js h [u] s)))) =
       caseTerminalWriter (snd (reportXssDiagnostics js h [u] s))"
    by (simp add: k)
qed

section \<open>Rendering in case mode\<close>

lemma scaleUp_unfold:
  "scaleUp k ms e =
     (if k = 0 then e else if 2 ^ 52 * 1000 \<le> ms * 2 ^ e then e else scaleUp (k - 1) ms (Suc e))"
  by (cases k) simp_all

lemma div1000_1500: "div1000 1500 = (6755399441055744, 52)"
  by (simp add: div1000_def scaleUp_unfold roundHalfEven_def Let_def)

lemma toFixed2_1500: "toFixed2 (div1000 1500) = str ''1.50''"
  by (simp add: div1000_1500 toFixed2_def hundredths_def showNat.simps Let_def str_def)

lemma toFixed2_1005: "toFixed2 (div1000 1005) = str ''1.00''"
  by (simp add: div1000_def scaleUp_unfold roundHalfEven_def toFixed2_def hundredths_def showNat.simps Let_def str_def)

lemma toFixed2_8345: "toFixed2 (div1000 8345) = str ''8.35''"
  by (simp add: div1000_def scaleUp_unfold roundHalfEven_def toFixed2_def hundredths_def showNat.simps Let_def str_def)

lemma toFixed2_0: "toFixed2 (div1000 0) = str ''0.00''"
  by (simp add: div1000_def toFixed2_def hundredths_def showNat.simps Let_def str_def)

lemma casePrelude_quiet:
  "channelLines (casePrelude sh tsh s) = [] \<and> terminalWrites (casePrelude sh tsh s) = []"
  by (simp add: casePrelude_def channelLines_append terminalWrites_append)


lemma case_render_events:
  assumes "openTextDocument h u = Some doc" "extractCases doc \<noteq> []"
    and "lastReports s u \<noteq> Some (reportKey js (filteredDiagnostics h u) (extractCases doc))"
  shows "events (snd (snd (snd (reportUri js h u (sh, tsh, s))))) =
     events s @ casePrelude sh tsh s @
       caseEvents (snd (fst (getCaseTerminal s)))
         (\<lambda>c. caseLine js c (status (caseHasIssue (filteredDiagnostics h u) c))
            (div1000 (nat (max 0 (dateNow h (clockReads s) -
               (case lastChangeAt s u of Some t \<Rightarrow> t | None \<Rightarrow> dateNow h (clockReads s + 1)))))))
         (extractCases doc)"
  by (simp add: reportUri_case_render [OF assms] readElapsedMs_value)

lemma extractCases_caseDoc:
  "extractCases caseDoc =
     [\<lparr>caseId = SafeInteger 1, startLine = 0, endLine = 1\<rparr>, \<lparr>caseId = SafeInteger 2, startLine = 2, endLine = 3\<rparr>]"
  by (simp add: extractCases_def caseDoc_def plainLine_None markerLine_Some)

lemma caseDoc_pass:
  "reportXssDiagnostics sampleEngine (hostOf caseDoc [diagAt 1 (str ''tainted'')]) [appUri] initialState =
     (Fulfilled,
      initialState\<lparr>caseTerminal := Some 0, caseTerminalWriter := Some 0, terminalsCreated := 1,
        lastReports := [appUri \<mapsto> str ''1:1|2:0''], clockReads := 2,
        events := [ChannelShow, TerminalCreate 0, TerminalShow 0,
          ChannelAppendLine (caseLine sampleEngine \<lparr>caseId = SafeInteger 1, startLine = 0, endLine = 1\<rparr> statusSuccess (0, 0)),
          WriterFire 0 (caseLine sampleEngine \<lparr>caseId = SafeInteger 1, startLine = 0, endLine = 1\<rparr> statusSuccess (0, 0) @ [13, 10]),
          ChannelAppendLine (caseLine sampleEngine \<lparr>caseId = SafeInteger 2, startLine = 2, endLine = 3\<rparr> statusFailure (0, 0)),
          WriterFire 0 (caseLine sampleEngine \<lparr>caseId = SafeInteger 2, startLine = 2, endLine = 3\<rparr> statusFailure (0, 0) @ [13, 10])]\<rparr>)"
proof -
  have dz: "div1000 0 = (0, 0)" by (simp add: div1000_def)
  show ?thesis
    by (simp add: reportXssDiagnostics_def reportUri_def filteredDiagnostics_def hostOf_def
      initialState_def extractCases_caseDoc diagAt_def reportKey_def reportKeyEntry_def
      caseHasIssue_def showNat_small emit_def Let_def readElapsedMs_def getCaseTerminal_def
      status_def dz str_def numberToString_def)
qed












section \<open>The comparison of the report keys\<close>

theorem second_pass_is_noop_witness:
  "events (snd (reportXssDiagnostics sampleEngine (hostOf caseDoc [diagAt 1 (str ''tainted'')]) [appUri]
             (snd (reportXssDiagnostics sampleEngine (hostOf caseDoc [diagAt 1 (str ''tainted'')]) [appUri] initialState)))) =
     events (snd (reportXssDiagnostics sampleEngine (hostOf caseDoc [diagAt 1 (str ''tainted'')]) [appUri] initialState)) \<and>
   lastReports (snd (reportXssDiagnostics sampleEngine (hostOf caseDoc [diagAt 1 (str ''tainted'')]) [appUri]
             (snd (reportXssDiagnostics sampleEngine (hostOf caseDoc [diagAt 1 (str ''tainted'')]) [appUri] initialState)))) =
     lastReports (snd (reportXssDiagnostics sampleEngine (hostOf caseDoc [diagAt 1 (str ''tainted'')]) [appUri] initialState)) \<and>
   events (snd (reportXssDiagnostics sampleEngine (hostOf caseDoc [diagAt 1 (str ''tainted'')]) [appUri] initialState)) \<noteq> []"
proof -
  have "openTextDocument (hostOf caseDoc [diagAt 1 (str ''tainted'')]) appUri =
      openTextDocument (hostOf caseDoc [diagAt 1 (str ''tainted'')]) appUri \<and>
    filteredDiagnostics (hostOf caseDoc [diagAt 1 (str ''tainted'')]) appUri =
      filteredDiagnostics (hostOf caseDoc [diagAt 1 (str ''tainted'')]) appUri"
    by simp
  with second_pass_is_noop [of "hostOf caseDoc [diagAt 1 (str ''tainted'')]" appUri
      "hostOf caseDoc [diagAt 1 (str ''tainted'')]" sampleEngine initialState]
  have "events (snd (reportXssDiagnostics sampleEngine (hostOf caseDoc [diagAt 1 (str ''tainted'')]) [appUri]
             (snd (reportXssDiagnostics sampleEngine (hostOf caseDoc [diagAt 1 (str ''tainted'')]) [appUri] initialState)))) =
     events (snd (reportXssDiagnostics sampleEngine (hostOf caseDoc [diagAt 1 (str ''tainted'')]) [appUri] initialState)) \<and>
   lastReports (snd (reportXssDiagnostics sampleEngine (hostOf caseDoc [diagAt 1 (str ''tainted'')]) [appUri]
             (snd (reportXssDiagnostics sampleEngine (hostOf caseDoc [diagAt 1 (str ''tainted'')]) [appUri] initialState)))) =
     lastReports (snd (reportXssDiagnostics sampleEngine (hostOf caseDoc [diagAt 1 (str ''tainted'')]) [appUri] initialState))"
    by blast
  moreover have "events (snd (reportXssDiagnostics sampleEngine (hostOf caseDoc [diagAt 1 (str ''tainted'')]) [appUri] initialState)) \<noteq> []"
    unfolding caseDoc_pass by simp
  ultimately show ?thesis by (simp only: simp_thms)
qed


lemma channelLines_flatEvents:
  "channelLines (flatEvents n doc ds) =
     concat (map (\<lambda>d. [flatLine n d, doc ! rangeStartLine d])
       (takeWhile (\<lambda>d. rangeStartLine d < length doc) ds))"
  by (induction ds) (simp_all add: flatEvents_def)

lemma terminalWrites_flatEvents: "terminalWrites (flatEvents n doc ds) = []"
  by (induction ds) (simp_all add: flatEvents_def)





section \<open>What the report keys cover\<close>






section \<open>Rounding\<close>

lemma roundHalfEven_near:
  assumes "0 < b"
  shows "2 * (b * roundHalfEven a b) \<le> 2 * a + b \<and> 2 * a \<le> 2 * (b * roundHalfEven a b) + b"
proof -
  define q where "q = a div b"
  define r where "r = a mod b"
  define M where "M = roundHalfEven a b"
  have a: "a = b * q + r" by (simp add: q_def r_def)
  have r: "r < b" using assms by (simp add: r_def)
  have m: "M = (if 2 * r < b then q else if b < 2 * r then q + 1 else if even q then q else q + 1)"
    by (simp add: M_def roundHalfEven_def q_def r_def Let_def)
  have "2 * (b * M) \<le> 2 * (b * q + r) + b \<and> 2 * (b * q + r) \<le> 2 * (b * M) + b"
  proof (cases "2 * r < b")
    case True
    then have "M = q" by (simp add: m)
    with True show ?thesis by simp
  next
    case False
    then have "M = q \<and> 2 * r = b \<or> M = q + 1" by (auto simp: m)
    then show ?thesis
    proof
      assume "M = q \<and> 2 * r = b"
      then show ?thesis by simp
    next
      assume "M = q + 1"
      then have "b * M = b * q + b" by simp
      with False r show ?thesis by simp
    qed
  qed
  then show ?thesis by (simp only: a [symmetric] M_def)
qed

lemma scaleUp_ge: "e \<le> scaleUp k ms e"
proof (induction k arbitrary: e)
  case 0
  then show ?case by simp
next
  case (Suc k)
  have "Suc e \<le> scaleUp k ms (Suc e)" by (rule Suc.IH)
  then have "e \<le> scaleUp k ms (Suc e)" by simp
  then show ?case by simp
qed

lemma scaleUp_skip:
  "(\<And>j. j < n \<Longrightarrow> \<not> 2 ^ 52 * 1000 \<le> ms * 2 ^ (e + j)) \<Longrightarrow>
   scaleUp (n + k) ms e = scaleUp k ms (e + n)"
proof (induction n arbitrary: e)
  case 0
  then show ?case by simp
next
  case (Suc n)
  have "\<not> 2 ^ 52 * 1000 \<le> ms * 2 ^ e" using Suc.prems [of 0] by simp
  then have "scaleUp (Suc n + k) ms e = scaleUp (n + k) ms (Suc e)" by simp
  also have "\<dots> = scaleUp k ms (Suc e + n)"
  proof (rule Suc.IH)
    fix j assume "j < n"
    then show "\<not> 2 ^ 52 * 1000 \<le> ms * 2 ^ (Suc e + j)"
      using Suc.prems [of "Suc j"] by simp
  qed
  finally show ?case by simp
qed

lemma scaleUp_at_least_9:
  assumes "ms < 2 ^ 53"
  shows "9 \<le> scaleUp 62 ms 0"
proof -
  have "\<not> 2 ^ 52 * 1000 \<le> ms * 2 ^ (0 + j)" if "j < 9" for j
  proof -
    from that have "(2::nat) ^ j \<le> 2 ^ 8" by (intro power_increasing) simp_all
    then have "ms * 2 ^ j \<le> ms * 2 ^ 8" by (rule mult_le_mono2)
    also have "\<dots> < 2 ^ 52 * 1000" using assms by simp
    finally show ?thesis by simp
  qed
  then have "scaleUp (9 + 53) ms 0 = scaleUp 53 ms (0 + 9)"
    by (rule scaleUp_skip)
  then have "scaleUp 62 ms 0 = scaleUp 53 ms 9" by simp
  then show ?thesis using scaleUp_ge [of 9 53 ms] by simp
qed

lemma hundredths_div1000:
  assumes "ms < 2 ^ 53"
  shows "10 * hundredths (div1000 ms) \<le> ms + 5 \<and> ms \<le> 10 * hundredths (div1000 ms) + 5"
proof (cases "ms = 0")
  case True
  then show ?thesis by (simp add: div1000_def hundredths_def)
next
  case False
  define e where "e = scaleUp 62 ms 0"
  define P :: nat where "P = 2 ^ e"
  define M where "M = roundHalfEven (ms * P) 1000"
  define n where "n = (200 * M + P) div (2 * P)"
  have d: "div1000 ms = (M, e)"
    using False by (simp add: div1000_def Let_def e_def M_def P_def)
  have h: "hundredths (div1000 ms) = n"
    by (simp add: d hundredths_def n_def P_def)
  have "9 \<le> e" unfolding e_def using assms by (rule scaleUp_at_least_9)
  then have "(2::nat) ^ 9 \<le> 2 ^ e" by (intro power_increasing) simp_all
  then have P: "512 \<le> P" by (simp add: P_def)
  from roundHalfEven_near [of 1000 "ms * P"]
  have r1: "2000 * M \<le> 2 * (ms * P) + 1000" and r2: "2 * (ms * P) \<le> 2000 * M + 1000"
    by (simp_all add: M_def)
  have Ppos: "0 < 2 * P" using P by simp
  have n1: "2 * P * n \<le> 200 * M + P"
    unfolding n_def by (rule times_div_less_eq_dividend)
  have "(200 * M + P) mod (2 * P) < 2 * P" using Ppos by (rule mod_less_divisor)
  moreover have "200 * M + P = 2 * P * n + (200 * M + P) mod (2 * P)"
    unfolding n_def by simp
  ultimately have n2: "200 * M + P < 2 * P * n + 2 * P" by linarith
  have up: "10 * n \<le> ms + 5"
  proof (rule ccontr)
    assume "\<not> 10 * n \<le> ms + 5"
    then have "ms + 6 \<le> 10 * n" by simp
    then have "P * (ms + 6) \<le> P * (10 * n)" by (rule mult_le_mono2)
    then have "ms * P + 6 * P \<le> 10 * (P * n)" by (simp add: algebra_simps)
    moreover from n1 have "10 * (P * n) \<le> 1000 * M + 5 * P" by (simp add: algebra_simps)
    ultimately show False using r1 P by linarith
  qed
  have lo: "ms \<le> 10 * n + 5"
  proof (rule ccontr)
    assume "\<not> ms \<le> 10 * n + 5"
    then have "10 * n + 6 \<le> ms" by simp
    then have "P * (10 * n + 6) \<le> P * ms" by (rule mult_le_mono2)
    then have "10 * (P * n) + 6 * P \<le> ms * P" by (simp add: algebra_simps)
    moreover from n2 have "1000 * M + 5 * P < 10 * (P * n) + 10 * P" by (simp add: algebra_simps)
    ultimately show False using r2 P by linarith
  qed
  from up lo show ?thesis by (simp add: h)
qed

lemma toFixed2_format:
  "\<exists>ip a b. toFixed2 x = ip @ [46, a, b] \<and> ip \<noteq> [] \<and> (\<forall>c\<in>set ip. isDigit c) \<and>
     isDigit a \<and> isDigit b"
proof -
  define ds where "ds = showNat (hundredths x)"
  define padded where "padded = (if length ds \<le> 2 then replicate (3 - length ds) 48 @ ds else ds)"
  define k where "k = length padded"
  have t: "toFixed2 x = take (k - 2) padded @ [46] @ drop (k - 2) padded"
    by (simp add: toFixed2_def Let_def ds_def padded_def k_def)
  have dd: "\<forall>c\<in>set ds. isDigit c" using showNat_digits by (auto simp: ds_def)
  have z: "isDigit 48" by (simp add: isDigit_def)
  have pd: "\<forall>c\<in>set padded. isDigit c" using dd z by (auto simp: padded_def)
  have k3: "3 \<le> k" by (auto simp: k_def padded_def)
  have "length (drop (k - 2) padded) = 2" using k3 by (simp add: k_def)
  then obtain a b where ab: "drop (k - 2) padded = [a, b]"
    by (metis (no_types, opaque_lifting) One_nat_def Suc_1 length_0_conv length_Suc_conv)
  have "set (drop (k - 2) padded) \<subseteq> set padded" by (rule set_drop_subset)
  with ab pd have dab: "isDigit a" "isDigit b" by auto
  have "set (take (k - 2) padded) \<subseteq> set padded" by (rule set_take_subset)
  with pd have dip: "\<forall>c\<in>set (take (k - 2) padded). isDigit c" by auto
  have "length (take (k - 2) padded) = k - 2" by (simp add: k_def)
  with k3 have ne: "take (k - 2) padded \<noteq> []" by auto
  have "toFixed2 x = take (k - 2) padded @ [46, a, b]" by (simp add: t ab)
  with ne dip dab show ?thesis by blast
qed

lemma recordChange_lastChangeAt:
  "lastChangeAt (recordChange h (str ''python'') u s) u = Some (dateNow h (clockReads s))"
  by (simp add: recordChange_def)

section \<open>The quotient by 1000 as a double\<close>

lemma scaleUp_reaches:
  "2 ^ 52 * 1000 \<le> ms * 2 ^ (e + k) \<Longrightarrow> 2 ^ 52 * 1000 \<le> ms * 2 ^ scaleUp k ms e"
proof (induction k arbitrary: e)
  case 0
  then show ?case by simp
next
  case (Suc k)
  show ?case
  proof (cases "2 ^ 52 * 1000 \<le> ms * 2 ^ e")
    case True
    then show ?thesis by simp
  next
    case False
    have "2 ^ 52 * 1000 \<le> ms * 2 ^ scaleUp k ms (Suc e)"
      using Suc.prems by (intro Suc.IH) simp
    with False show ?thesis by simp
  qed
qed

lemma scaleUp_least:
  "e0 \<le> e \<Longrightarrow> e < scaleUp k ms e0 \<Longrightarrow> \<not> 2 ^ 52 * 1000 \<le> ms * 2 ^ e"
proof (induction k arbitrary: e0)
  case 0
  then show ?case by simp
next
  case (Suc k)
  show ?case
  proof (cases "2 ^ 52 * 1000 \<le> ms * 2 ^ e0")
    case True
    with Suc.prems show ?thesis by simp
  next
    case False
    show ?thesis
    proof (cases "e = e0")
      case True
      with False show ?thesis by simp
    next
      case ne: False
      with Suc.prems(1) have "Suc e0 \<le> e" by simp
      moreover from Suc.prems(2) False have "e < scaleUp k ms (Suc e0)" by simp
      ultimately show ?thesis by (rule Suc.IH)
    qed
  qed
qed

text \<open>
  For \<open>0 < ms < 2^53\<close> the result of \<open>div1000\<close> is a double in normal form: the
  significand has 53 bits (or is \<open>2^53\<close>, the next power of two), and it is the scaled
  quotient rounded to nearest.
\<close>

lemma div1000_normal:
  assumes "0 < ms" "ms < 2 ^ 53"
  shows "2 ^ 52 \<le> fst (div1000 ms) \<and> fst (div1000 ms) \<le> 2 ^ 53 \<and>
     2 * (1000 * fst (div1000 ms)) \<le> 2 * (ms * 2 ^ snd (div1000 ms)) + 1000 \<and>
     2 * (ms * 2 ^ snd (div1000 ms)) \<le> 2 * (1000 * fst (div1000 ms)) + 1000"
proof -
  define e where "e = scaleUp 62 ms 0"
  define P :: nat where "P = 2 ^ e"
  define M where "M = roundHalfEven (ms * P) 1000"
  have d: "div1000 ms = (M, e)"
    using assms(1) by (simp add: div1000_def Let_def e_def M_def P_def)
  have "(2::nat) ^ 52 * 1000 \<le> 1 * 2 ^ 62" by simp
  also have "\<dots> \<le> ms * 2 ^ 62" using assms(1) by (intro mult_le_mono1) simp
  finally have "2 ^ 52 * 1000 \<le> ms * 2 ^ (0 + 62)" by simp
  then have "2 ^ 52 * 1000 \<le> ms * 2 ^ scaleUp 62 ms 0" by (rule scaleUp_reaches)
  then have lo: "2 ^ 52 * 1000 \<le> ms * P" by (simp add: P_def e_def)
  have "9 \<le> e" unfolding e_def using assms(2) by (rule scaleUp_at_least_9)
  then obtain e' where e': "e = Suc e'" by (cases e) auto
  have "\<not> 2 ^ 52 * 1000 \<le> ms * 2 ^ e'"
  proof (rule scaleUp_least)
    show "0 \<le> e'" by simp
    show "e' < scaleUp 62 ms 0" using e' by (simp add: e_def)
  qed
  then have "ms * 2 ^ e' < 2 ^ 52 * 1000" by simp
  then have "2 * (ms * 2 ^ e') < 2 * (2 ^ 52 * 1000)" by simp
  then have hi: "ms * P < 2 ^ 53 * 1000" by (simp add: P_def e')
  from roundHalfEven_near [of 1000 "ms * P"]
  have r1: "2 * (1000 * M) \<le> 2 * (ms * P) + 1000" and r2: "2 * (ms * P) \<le> 2 * (1000 * M) + 1000"
    by (simp_all add: M_def)
  from r2 lo have "2 ^ 52 \<le> M" by simp
  moreover from r1 hi have "M \<le> 2 ^ 53" by simp
  ultimately show ?thesis using r1 r2 by (simp add: d P_def)
qed

section \<open>The elapsed time of a pass\<close>

lemma showNat_step: "10 \<le> n \<Longrightarrow> showNat n = showNat (n div 10) @ [48 + n mod 10]"
  by (simp add: showNat.simps [of n])

lemma showNat_length_ge: "100 \<le> n \<Longrightarrow> 3 \<le> length (showNat n)"
proof -
  assume a: "100 \<le> n"
  then have b: "10 \<le> n div 10" by simp
  have "showNat n = showNat (n div 10 div 10) @ [48 + n div 10 mod 10] @ [48 + n mod 10]"
    using a b by (simp add: showNat_step [of n] showNat_step [of "n div 10"])
  moreover have "showNat (n div 10 div 10) \<noteq> []" by (rule showNat_not_Nil)
  ultimately show ?thesis by (cases "showNat (n div 10 div 10)") simp_all
qed

lemma toFixed2_digits:
  "toFixed2 x =
     showNat (hundredths x div 100) @ [46, 48 + hundredths x div 10 mod 10, 48 + hundredths x mod 10]"
proof -
  define n where "n = hundredths x"
  consider "n < 10" | "10 \<le> n" "n < 100" | "100 \<le> n" by linarith
  then have "(let ds = showNat n;
          padded = (if length ds \<le> 2 then replicate (3 - length ds) 48 @ ds else ds);
          k = length padded
      in take (k - 2) padded @ [46] @ drop (k - 2) padded) =
     showNat (n div 100) @ [46, 48 + n div 10 mod 10, 48 + n mod 10]"
  proof cases
    case 1
    then show ?thesis by (simp add: showNat_small Let_def numeral_3_eq_3)
  next
    case 2
    then have d: "n div 10 < 10" by simp
    have s: "showNat n = [48 + n div 10, 48 + n mod 10]"
      using 2 d by (simp add: showNat_step showNat_small)
    show ?thesis using 2 d by (simp add: s Let_def showNat_small)
  next
    case 3
    then have b: "10 \<le> n div 10" by simp
    have dd: "n div 10 div 10 = n div 100"
      by (simp add: div_mult2_eq [symmetric])
    have s: "showNat n = showNat (n div 100) @ [48 + n div 10 mod 10, 48 + n mod 10]"
      using 3 b by (simp add: showNat_step [of n] showNat_step [of "n div 10"] dd)
    have l: "\<not> length (showNat n) \<le> 2" using showNat_length_ge [OF 3] by simp
    have k: "length (showNat n) - 2 = length (showNat (n div 100))" by (simp add: s)
    show ?thesis
      unfolding Let_def if_not_P [OF l] k by (simp add: s)
  qed
  then show ?thesis by (simp only: toFixed2_def n_def)
qed

lemma hundredths_nearest:
  "2 ^ (e + 1) * hundredths (m, e) \<le> 200 * m + 2 ^ e \<and>
   200 * m + 2 ^ e < 2 ^ (e + 1) * (hundredths (m, e) + 1)"
proof -
  define P :: nat where "P = 2 ^ (e + 1)"
  have P: "0 < P" by (simp add: P_def)
  have h: "hundredths (m, e) = (200 * m + 2 ^ e) div P"
    by (simp add: hundredths_def P_def)
  have "P * ((200 * m + 2 ^ e) div P) \<le> 200 * m + 2 ^ e"
    by (rule times_div_less_eq_dividend)
  moreover have "200 * m + 2 ^ e < P * ((200 * m + 2 ^ e) div P + 1)"
    using P dividend_less_times_div [of P "200 * m + 2 ^ e"] by (simp add: algebra_simps)
  ultimately show ?thesis by (simp only: h P_def)
qed

lemma toFixed2_2000: "toFixed2 (div1000 2000) = str ''2.00''"
  by (simp add: div1000_def scaleUp_unfold roundHalfEven_def toFixed2_def hundredths_def showNat.simps Let_def str_def)

lemma caseLine_unfold:
  "caseLine js c st el =
     str ''### '' @ numberToString js (caseId c) @ [0xBC88, 0x20, 0xCF00, 0xC774, 0xC2A4] @
     str '' -> '' @ st @ str '' '' @ toFixed2 el @ str ''s''"
  by (simp only: caseLine_def)

text \<open>
  Claim C9, as the code has it. In a rendering pass in case mode, every case line, on the
  output channel and on the terminal, carries the same elapsed value: \<^verbatim>\<open>toFixed(2)\<close> of
  the double \<open>max(0, now - lastChangeAt[doc]) / 1000\<close>, with \<open>now\<close> read once at the entry
  of the pass and \<open>lastChangeAt\<close> what the last open, save or edit of the document
  recorded. When nothing was recorded the clock is read a second time in its place, so that
  the value is 0 (rendered \<^verbatim>\<open>0.00\<close>) when the clock has not gone back between the two
  readings, and the difference of the two readings otherwise. The quotient is the double
  nearest to the thousandth of the milliseconds; \<^verbatim>\<open>toFixed(2)\<close> renders the nearest
  number of hundredths (the larger of two) as its integer part, a point and two digits; the
  number rendered is within 5 ms of the elapsed milliseconds; 1500 ms are rendered
  \<^verbatim>\<open>1.50\<close>.
\<close>

theorem case_pass_elapsed:
  "(openTextDocument h u = Some doc \<and> extractCases doc \<noteq> [] \<and>
    lastReports s u \<noteq> Some (reportKey js (filteredDiagnostics h u) (extractCases doc)) \<longrightarrow>
      channelLines (events (snd (snd (snd (reportUri js h u (sh, tsh, s)))))) =
        channelLines (events s) @
        map (\<lambda>c. str ''### '' @ numberToString js (caseId c) @ [0xBC88, 0x20, 0xCF00, 0xC774, 0xC2A4] @
                 str '' -> '' @ status (caseHasIssue (filteredDiagnostics h u) c) @ str '' '' @
                 toFixed2 (div1000 (nat (max 0 (dateNow h (clockReads s) -
                     (case lastChangeAt s u of Some t \<Rightarrow> t
                      | None \<Rightarrow> dateNow h (clockReads s + 1)))))) @
                 str ''s'')
          (extractCases doc) \<and>
      terminalWrites (events (snd (snd (snd (reportUri js h u (sh, tsh, s)))))) =
        terminalWrites (events s) @
        map (\<lambda>c. str ''### '' @ numberToString js (caseId c) @ [0xBC88, 0x20, 0xCF00, 0xC774, 0xC2A4] @
                 str '' -> '' @ status (caseHasIssue (filteredDiagnostics h u) c) @ str '' '' @
                 toFixed2 (div1000 (nat (max 0 (dateNow h (clockReads s) -
                     (case lastChangeAt s u of Some t \<Rightarrow> t
                      | None \<Rightarrow> dateNow h (clockReads s + 1)))))) @
                 str ''s'' @ [13, 10])
          (extractCases doc)) \<and>
   (lastChangeAt s u = None \<and> dateNow h (clockReads s) \<le> dateNow h (clockReads s + 1) \<longrightarrow>
      toFixed2 (div1000 (nat (max 0 (dateNow h (clockReads s) -
          (case lastChangeAt s u of Some t \<Rightarrow> t | None \<Rightarrow> dateNow h (clockReads s + 1)))))) =
        str ''0.00'') \<and>
   lastChangeAt (recordChange h (str ''python'') u s) u = Some (dateNow h (clockReads s)) \<and>
   div1000 0 = (0, 0) \<and>
   (0 < ms \<and> ms < 2 ^ 53 \<longrightarrow>
      2 ^ 52 \<le> fst (div1000 ms) \<and> fst (div1000 ms) \<le> 2 ^ 53 \<and>
      2 * (1000 * fst (div1000 ms)) \<le> 2 * (ms * 2 ^ snd (div1000 ms)) + 1000 \<and>
      2 * (ms * 2 ^ snd (div1000 ms)) \<le> 2 * (1000 * fst (div1000 ms)) + 1000) \<and>
   2 ^ (e + 1) * hundredths (m, e) \<le> 200 * m + 2 ^ e \<and>
   200 * m + 2 ^ e < 2 ^ (e + 1) * (hundredths (m, e) + 1) \<and>
   toFixed2 x =
     showNat (hundredths x div 100) @ [46, 48 + hundredths x div 10 mod 10, 48 + hundredths x mod 10] \<and>
   (ms < 2 ^ 53 \<longrightarrow>
      10 * hundredths (div1000 ms) \<le> ms + 5 \<and> ms \<le> 10 * hundredths (div1000 ms) + 5) \<and>
   toFixed2 (div1000 1500) = str ''1.50''"
proof (intro conjI impI)
  assume a: "openTextDocument h u = Some doc \<and> extractCases doc \<noteq> [] \<and>
    lastReports s u \<noteq> Some (reportKey js (filteredDiagnostics h u) (extractCases doc))"
  define el where "el = div1000 (nat (max 0 (dateNow h (clockReads s) -
               (case lastChangeAt s u of Some t \<Rightarrow> t | None \<Rightarrow> dateNow h (clockReads s + 1)))))"
  define f where "f = (\<lambda>c. caseLine js c (status (caseHasIssue (filteredDiagnostics h u) c)) el)"
  define new where "new = casePrelude sh tsh s @ caseEvents (snd (fst (getCaseTerminal s))) f (extractCases doc)"
  from a have ev: "events (snd (snd (snd (reportUri js h u (sh, tsh, s))))) = events s @ new"
    by (simp add: case_render_events new_def f_def el_def)
  have "channelLines new = map f (extractCases doc)"
    by (simp add: new_def channelLines_append casePrelude_quiet channelLines_caseEvents)
  then have "channelLines (events (snd (snd (snd (reportUri js h u (sh, tsh, s)))))) =
      channelLines (events s) @ map f (extractCases doc)"
    by (simp only: ev channelLines_append)
  then show "channelLines (events (snd (snd (snd (reportUri js h u (sh, tsh, s)))))) =
        channelLines (events s) @
        map (\<lambda>c. str ''### '' @ numberToString js (caseId c) @ [0xBC88, 0x20, 0xCF00, 0xC774, 0xC2A4] @
                 str '' -> '' @ status (caseHasIssue (filteredDiagnostics h u) c) @ str '' '' @
                 toFixed2 (div1000 (nat (max 0 (dateNow h (clockReads s) -
                     (case lastChangeAt s u of Some t \<Rightarrow> t
                      | None \<Rightarrow> dateNow h (clockReads s + 1)))))) @
                 str ''s'')
          (extractCases doc)"
    by (simp only: f_def el_def caseLine_unfold)
  have "terminalWrites new = map (\<lambda>c. f c @ [13, 10]) (extractCases doc)"
    by (simp add: new_def terminalWrites_append casePrelude_quiet terminalWrites_caseEvents)
  then have "terminalWrites (events (snd (snd (snd (reportUri js h u (sh, tsh, s)))))) =
      terminalWrites (events s) @ map (\<lambda>c. f c @ [13, 10]) (extractCases doc)"
    by (simp only: ev terminalWrites_append)
  then show "terminalWrites (events (snd (snd (snd (reportUri js h u (sh, tsh, s)))))) =
        terminalWrites (events s) @
        map (\<lambda>c. str ''### '' @ numberToString js (caseId c) @ [0xBC88, 0x20, 0xCF00, 0xC774, 0xC2A4] @
                 str '' -> '' @ status (caseHasIssue (filteredDiagnostics h u) c) @ str '' '' @
                 toFixed2 (div1000 (nat (max 0 (dateNow h (clockReads s) -
                     (case lastChangeAt s u of Some t \<Rightarrow> t
                      | None \<Rightarrow> dateNow h (clockReads s + 1)))))) @
                 str ''s'' @ [13, 10])
          (extractCases doc)"
    by (simp only: f_def el_def caseLine_unfold append_assoc)
next
  assume "lastChangeAt s u = None \<and> dateNow h (clockReads s) \<le> dateNow h (clockReads s + 1)"
  then have "nat (max 0 (dateNow h (clockReads s) -
          (case lastChangeAt s u of Some t \<Rightarrow> t | None \<Rightarrow> dateNow h (clockReads s + 1)))) = 0"
    by simp
  then show "toFixed2 (div1000 (nat (max 0 (dateNow h (clockReads s) -
          (case lastChangeAt s u of Some t \<Rightarrow> t | None \<Rightarrow> dateNow h (clockReads s + 1)))))) =
        str ''0.00''"
    by (simp only: toFixed2_0)
next
  show "lastChangeAt (recordChange h (str ''python'') u s) u = Some (dateNow h (clockReads s))"
    by (rule recordChange_lastChangeAt)
next
  show "div1000 0 = (0, 0)" by (simp add: div1000_def)
next
  assume b: "0 < ms \<and> ms < 2 ^ 53"
  then have b1: "0 < ms" and b2: "ms < 2 ^ 53" by simp_all
  note n = div1000_normal [OF b1 b2]
  from n show "2 ^ 52 \<le> fst (div1000 ms)" by simp
  from n show "fst (div1000 ms) \<le> 2 ^ 53" by simp
  from n show "2 * (1000 * fst (div1000 ms)) \<le> 2 * (ms * 2 ^ snd (div1000 ms)) + 1000" by simp
  from n show "2 * (ms * 2 ^ snd (div1000 ms)) \<le> 2 * (1000 * fst (div1000 ms)) + 1000" by simp
next
  show "2 ^ (e + 1) * hundredths (m, e) \<le> 200 * m + 2 ^ e"
    using hundredths_nearest [of e m] by simp
next
  show "200 * m + 2 ^ e < 2 ^ (e + 1) * (hundredths (m, e) + 1)"
    using hundredths_nearest [of e m] by simp
next
  show "toFixed2 x =
     showNat (hundredths x div 100) @ [46, 48 + hundredths x div 10 mod 10, 48 + hundredths x mod 10]"
    by (rule toFixed2_digits)
next
  assume "ms < 2 ^ 53"
  then show "10 * hundredths (div1000 ms) \<le> ms + 5"
    using hundredths_div1000 [of ms] by simp
next
  assume "ms < 2 ^ 53"
  then show "ms \<le> 10 * hundredths (div1000 ms) + 5"
    using hundredths_div1000 [of ms] by simp
next
  show "toFixed2 (div1000 1500) = str ''1.50''"
    by (rule toFixed2_1500)
qed

text \<open>
  A pass 1500 ms after a recorded change writes \<^verbatim>\<open>1.50s\<close> on both lines, to both sinks;
  with nothing recorded and a clock that goes on, the value is \<^verbatim>\<open>0.00\<close>; the double for
  1500 ms is \<open>6755399441055744 / 2^52\<close>.
\<close>

theorem case_pass_elapsed_witness:
  "channelLines (events (snd (snd (snd (reportUri sampleEngine (hostOf caseDoc [diagAt 1 (str ''tainted'')]) appUri
      (False, False,
       recordChange (hostOf caseDoc [diagAt 1 (str ''tainted'')]) (str ''python'') appUri initialState)))))) =
     [str ''### 1'' @ [0xBC88, 0x20, 0xCF00, 0xC774, 0xC2A4] @ str '' -> '' @ statusSuccess @ str '' 1.50s'',
      str ''### 2'' @ [0xBC88, 0x20, 0xCF00, 0xC774, 0xC2A4] @ str '' -> '' @ statusFailure @ str '' 1.50s''] \<and>
   terminalWrites (events (snd (snd (snd (reportUri sampleEngine (hostOf caseDoc [diagAt 1 (str ''tainted'')]) appUri
      (False, False,
       recordChange (hostOf caseDoc [diagAt 1 (str ''tainted'')]) (str ''python'') appUri initialState)))))) =
     [str ''### 1'' @ [0xBC88, 0x20, 0xCF00, 0xC774, 0xC2A4] @ str '' -> '' @ statusSuccess @ str '' 1.50s'' @ [13, 10],
      str ''### 2'' @ [0xBC88, 0x20, 0xCF00, 0xC774, 0xC2A4] @ str '' -> '' @ statusFailure @ str '' 1.50s'' @ [13, 10]] \<and>
   toFixed2 (div1000 (nat (max 0 (dateNow (hostOf caseDoc [diagAt 1 (str ''tainted'')]) (clockReads initialState) -
      (case lastChangeAt initialState appUri of Some t \<Rightarrow> t
       | None \<Rightarrow> dateNow (hostOf caseDoc [diagAt 1 (str ''tainted'')]) (clockReads initialState + 1)))))) =
     str ''0.00'' \<and>
   div1000 1500 = (6755399441055744, 52) \<and>
   2 ^ 52 \<le> fst (div1000 1500) \<and> fst (div1000 1500) \<le> 2 ^ 53 \<and>
   2 * (1000 * fst (div1000 1500)) \<le> 2 * (1500 * 2 ^ snd (div1000 1500)) + 1000 \<and>
   2 * (1500 * 2 ^ snd (div1000 1500)) \<le> 2 * (1000 * fst (div1000 1500)) + 1000 \<and>
   10 * hundredths (div1000 1500) \<le> 1500 + 5 \<and> 1500 \<le> 10 * hundredths (div1000 1500) + 5"
proof -
  let ?H = "hostOf caseDoc [diagAt 1 (str ''tainted'')]"
  let ?s0 = "recordChange ?H (str ''python'') appUri initialState"
  let ?el = "\<lambda>s. toFixed2 (div1000 (nat (max 0 (dateNow ?H (clockReads s) -
                     (case lastChangeAt s appUri of Some t \<Rightarrow> t
                      | None \<Rightarrow> dateNow ?H (clockReads s + 1))))))"
  let ?line = "\<lambda>c. str ''### '' @ numberToString sampleEngine (caseId c) @ [0xBC88, 0x20, 0xCF00, 0xC774, 0xC2A4] @
                 str '' -> '' @ status (caseHasIssue (filteredDiagnostics ?H appUri) c) @ str '' '' @
                 ?el ?s0 @ str ''s''"
  let ?chunk = "\<lambda>c. str ''### '' @ numberToString sampleEngine (caseId c) @ [0xBC88, 0x20, 0xCF00, 0xC774, 0xC2A4] @
                 str '' -> '' @ status (caseHasIssue (filteredDiagnostics ?H appUri) c) @ str '' '' @
                 ?el ?s0 @ str ''s'' @ [13, 10]"
  note t = case_pass_elapsed [where h = ?H and u = appUri and doc = caseDoc and s = ?s0
      and js = sampleEngine and sh = False and tsh = False and ms = 1500 and e = 0 and m = 0
      and x = "(0, 0)"]
  note t' = case_pass_elapsed [where h = ?H and u = appUri and doc = caseDoc and s = initialState
      and js = sampleEngine and sh = False and tsh = False and ms = 1500 and e = 0 and m = 0
      and x = "(0, 0)"]
  have p: "openTextDocument ?H appUri = Some caseDoc \<and> extractCases caseDoc \<noteq> [] \<and>
      lastReports ?s0 appUri \<noteq> Some (reportKey sampleEngine (filteredDiagnostics ?H appUri) (extractCases caseDoc))"
    by (simp add: hostOf_def extractCases_caseDoc recordChange_def initialState_def)
  from t p have L:
    "channelLines (events (snd (snd (snd (reportUri sampleEngine ?H appUri (False, False, ?s0)))))) =
       channelLines (events ?s0) @ map ?line (extractCases caseDoc)"
    "terminalWrites (events (snd (snd (snd (reportUri sampleEngine ?H appUri (False, False, ?s0)))))) =
       terminalWrites (events ?s0) @ map ?chunk (extractCases caseDoc)"
    by blast+
  have el: "?el ?s0 = str ''1.50''"
  proof -
    have "nat (max 0 (dateNow ?H (clockReads ?s0) -
                     (case lastChangeAt ?s0 appUri of Some t \<Rightarrow> t
                      | None \<Rightarrow> dateNow ?H (clockReads ?s0 + 1)))) = 1500"
      by (simp add: recordChange_def initialState_def hostOf_def)
    then show ?thesis by (simp only: toFixed2_1500)
  qed
  have e0: "events ?s0 = []"
    by (simp add: recordChange_def initialState_def)
  have R1: "channelLines (events ?s0) @ map ?line (extractCases caseDoc) =
     [str ''### 1'' @ [0xBC88, 0x20, 0xCF00, 0xC774, 0xC2A4] @ str '' -> '' @ statusSuccess @ str '' 1.50s'',
      str ''### 2'' @ [0xBC88, 0x20, 0xCF00, 0xC774, 0xC2A4] @ str '' -> '' @ statusFailure @ str '' 1.50s'']"
    unfolding el e0
    by (simp add: extractCases_caseDoc numberToString_def status_def caseHasIssue_def
        filteredDiagnostics_def hostOf_def diagAt_def showNat_small str_def)
  have R2: "terminalWrites (events ?s0) @ map ?chunk (extractCases caseDoc) =
     [str ''### 1'' @ [0xBC88, 0x20, 0xCF00, 0xC774, 0xC2A4] @ str '' -> '' @ statusSuccess @ str '' 1.50s'' @ [13, 10],
      str ''### 2'' @ [0xBC88, 0x20, 0xCF00, 0xC774, 0xC2A4] @ str '' -> '' @ statusFailure @ str '' 1.50s'' @ [13, 10]]"
    unfolding el e0
    by (simp add: extractCases_caseDoc numberToString_def status_def caseHasIssue_def
        filteredDiagnostics_def hostOf_def diagAt_def showNat_small str_def)
  from L(1) R1 have l1:
    "channelLines (events (snd (snd (snd (reportUri sampleEngine ?H appUri (False, False, ?s0)))))) =
     [str ''### 1'' @ [0xBC88, 0x20, 0xCF00, 0xC774, 0xC2A4] @ str '' -> '' @ statusSuccess @ str '' 1.50s'',
      str ''### 2'' @ [0xBC88, 0x20, 0xCF00, 0xC774, 0xC2A4] @ str '' -> '' @ statusFailure @ str '' 1.50s'']"
    by (rule trans)
  from L(2) R2 have l2:
    "terminalWrites (events (snd (snd (snd (reportUri sampleEngine ?H appUri (False, False, ?s0)))))) =
     [str ''### 1'' @ [0xBC88, 0x20, 0xCF00, 0xC774, 0xC2A4] @ str '' -> '' @ statusSuccess @ str '' 1.50s'' @ [13, 10],
      str ''### 2'' @ [0xBC88, 0x20, 0xCF00, 0xC774, 0xC2A4] @ str '' -> '' @ statusFailure @ str '' 1.50s'' @ [13, 10]]"
    by (rule trans)
  have mono: "lastChangeAt initialState appUri = None \<and>
      dateNow ?H (clockReads initialState) \<le> dateNow ?H (clockReads initialState + 1)"
    by (simp add: hostOf_def initialState_def)
  with t' have z: "?el initialState = str ''0.00''"
    by blast
  have b: "0 < (1500::nat) \<and> (1500::nat) < 2 ^ 53" by simp
  with t have n: "2 ^ 52 \<le> fst (div1000 1500) \<and> fst (div1000 1500) \<le> 2 ^ 53 \<and>
      2 * (1000 * fst (div1000 1500)) \<le> 2 * (1500 * 2 ^ snd (div1000 1500)) + 1000 \<and>
      2 * (1500 * 2 ^ snd (div1000 1500)) \<le> 2 * (1000 * fst (div1000 1500)) + 1000"
    by blast
  have "(1500::nat) < 2 ^ 53" by simp
  with t have acc: "10 * hundredths (div1000 1500) \<le> 1500 + 5 \<and> 1500 \<le> 10 * hundredths (div1000 1500) + 5"
    by blast
  from l1 l2 z n acc div1000_1500 show ?thesis by (simp only: simp_thms)
qed

text \<open>
  Claim C9 as stated fails when nothing was recorded for the document and the clock goes
  back between the two readings of the pass, from 3000 to 1000: the elapsed value of the
  case lines is not 0 but \<^verbatim>\<open>2.00\<close>.
\<close>

theorem case_pass_elapsed_counterexample:
  "lastChangeAt initialState appUri = None \<and>
   dateNow backwardHost 0 = 3000 \<and> dateNow backwardHost 1 = 1000 \<and>
   channelLines (events (snd (reportXssDiagnostics sampleEngine backwardHost [appUri] initialState))) =
     [str ''### 1'' @ [0xBC88, 0x20, 0xCF00, 0xC774, 0xC2A4] @ str '' -> '' @ statusFailure @ str '' 2.00s'',
      str ''### 2'' @ [0xBC88, 0x20, 0xCF00, 0xC774, 0xC2A4] @ str '' -> '' @ statusFailure @ str '' 2.00s''] \<and>
   str ''2.00'' \<noteq> str ''0.00''"
  by (simp add: reportXssDiagnostics_def reportUri_def filteredDiagnostics_def backwardHost_def
      initialState_def extractCases_caseDoc reportKey_def reportKeyEntry_def numberToString_def
      caseHasIssue_def showNat_small emit_def Let_def readElapsedMs_def getCaseTerminal_def
      status_def caseLine_def toFixed2_2000 str_def)
end
